theory Spec2Isabelle
  imports Complex_Main "HOL-Library.Multiset" "HOL-Library.Sublist"
begin

section \<open>SWC cell records (swcio.cpp)\<close>

text \<open>
  Exceptions of the reader: \<open>std::invalid_argument\<close> with its message, and
  \<open>swc_parse_error\<close> with its message and line number.
\<close>

datatype swc_error = invalid_argument string | swc_parse_error string nat

text \<open>
  A \<open>cell_record\<close> holds the members \<open>type_\<close>, \<open>id_\<close>, \<open>x_\<close>, \<open>y_\<close>, \<open>z_\<close>, \<open>r_\<close> and
  \<open>parent_id_\<close>. The type code is kept as the integer it is cast from
  (\<open>parse_value_strict\<close> casts any parsed integer to the enumeration). The record
  identifiers (\<open>id_type\<close>) are modelled as unbounded integers: the only arithmetic on
  them in the normaliser is the counter \<open>next_id\<close>, which is bounded by the number of
  records. Coordinates and radius are single precision numbers in the source; the code only
  compares the radius with zero, so they are modelled as reals.
\<close>

record cell_record =
  cr_type :: int
  cr_id :: int
  cr_x :: real
  cr_y :: real
  cr_z :: real
  cr_r :: real
  cr_parent_id :: int

text \<open>
  Modelled from the spec: the enumeration \<open>cell_record::kind\<close> is declared in
  \<open>swcio.hpp\<close>, which is not among the sources. The spec lists its eight tags
  undefined, soma, axon, dendrite, apical dendrite, fork point, end point, custom, so
  the last enumerator \<open>custom\<close> has code 7.
\<close>

definition custom :: int where
  "custom = 7"

definition check_consistency :: "cell_record \<Rightarrow> swc_error + unit" where
  "check_consistency c =
     (if cr_type c < 0 \<or> cr_type c > custom then Inl (invalid_argument ''unknown cell type'')
      else if cr_id c < 0 then Inl (invalid_argument ''negative ids not allowed'')
      else if cr_parent_id c < -1 then Inl (invalid_argument ''parent_id < -1 not allowed'')
      else if cr_parent_id c \<ge> cr_id c then
        Inl (invalid_argument ''parent_id >= id is not allowed'')
      else if cr_r c < 0 then Inl (invalid_argument ''negative radii are not allowed'')
      else Inr ())"

text \<open>\<open>std::map::insert\<close> leaves the map unchanged when the key is already present.\<close>

definition map_insert :: "(int \<rightharpoonup> int) \<Rightarrow> int \<Rightarrow> int \<Rightarrow> (int \<rightharpoonup> int)" where
  "map_insert m k v = (case m k of None \<Rightarrow> m(k \<mapsto> v) | Some _ \<Rightarrow> m)"

text \<open>
  \<open>cell_record::renumber\<close>: returns the renumbered record and the extended map, or the
  exception of \<open>check_consistency\<close>.
\<close>

definition renumber ::
  "cell_record \<Rightarrow> int \<Rightarrow> (int \<rightharpoonup> int) \<Rightarrow> swc_error + (cell_record \<times> (int \<rightharpoonup> int))" where
  "renumber c new_id idmap =
     (let old_id = cr_id c;
          c1 = c\<lparr>cr_id := new_id\<rparr>;
          c2 = (case idmap (cr_parent_id c1) of
                  Some new_parent_id \<Rightarrow> c1\<lparr>cr_parent_id := new_parent_id\<rparr>
                | None \<Rightarrow> c1)
      in case check_consistency c2 of
           Inl e \<Rightarrow> Inl e
         | Inr _ \<Rightarrow> Inr (c2, map_insert idmap old_id new_id))"

subsection \<open>The constructor of \<open>cell_record_range_clean\<close>\<close>

text \<open>
  The local variables of the first loop. The input of the constructor is the sequence of
  raw records that \<open>swc_get_records<swc_io_raw>\<close> yields from the stream.
\<close>

record read_state =
  ids :: "int set"
  num_trees :: nat
  last_id :: int
  needsort :: bool
  cells :: "cell_record list"

definition init_read_state :: read_state where
  "init_read_state = \<lparr>ids = {}, num_trees = 0, last_id = -1, needsort = False, cells = []\<rparr>"

text \<open>
  The first loop. The test \<open>c.parent() == -1 && ++num_trees > 1\<close> increments the counter
  only for a root record (\<open>count_root\<close>), and \<open>break\<close> leaves the loop. A record whose id
  is new is appended to \<open>cells_\<close> (\<open>insert_cell\<close>).
\<close>

definition count_root :: "read_state \<Rightarrow> cell_record \<Rightarrow> read_state" where
  "count_root s c = (if cr_parent_id c = -1 then s\<lparr>num_trees := num_trees s + 1\<rparr> else s)"

definition insert_cell :: "read_state \<Rightarrow> cell_record \<Rightarrow> read_state" where
  "insert_cell s c =
     s\<lparr>ids := insert (cr_id c) (ids s),
       cells := cells s @ [c],
       needsort := (if \<not> needsort s \<and> cr_id c < last_id s then True else needsort s),
       last_id := cr_id c\<rparr>"

fun read_records :: "read_state \<Rightarrow> cell_record list \<Rightarrow> read_state" where
  "read_records s [] = s"
| "read_records s (c # cs) =
     (let s1 = count_root s c
      in if cr_parent_id c = -1 \<and> num_trees s1 > 1 then s1
         else if cr_id c \<notin> ids s1 then read_records (insert_cell s1 c) cs
         else read_records s1 cs)"

text \<open>
  Modelled from the spec: \<open>operator<\<close> of \<open>cell_record\<close> is declared in \<open>swcio.hpp\<close>,
  which is not among the sources; the spec says the records are sorted by original id.
  The ids of the collected records are pairwise distinct, so the result of \<open>std::sort\<close>
  is determined.
\<close>

definition sort_cells :: "read_state \<Rightarrow> cell_record list" where
  "sort_cells s = (if needsort s then sort_key cr_id (cells s) else cells s)"

text \<open>The second loop: \<open>next_id\<close> and \<open>idmap\<close> are threaded through the records.\<close>

fun renumber_cells ::
  "int \<Rightarrow> (int \<rightharpoonup> int) \<Rightarrow> cell_record list \<Rightarrow> swc_error + cell_record list" where
  "renumber_cells next_id idmap [] = Inr []"
| "renumber_cells next_id idmap (c # cs) =
     (if cr_id c \<noteq> next_id then
        (case renumber c next_id idmap of
           Inl e \<Rightarrow> Inl e
         | Inr (c', idmap') \<Rightarrow>
             (case renumber_cells (next_id + 1) idmap' cs of
                Inl e \<Rightarrow> Inl e
              | Inr out \<Rightarrow> Inr (c' # out)))
      else
        (case renumber_cells (next_id + 1) idmap cs of
           Inl e \<Rightarrow> Inl e
         | Inr out \<Rightarrow> Inr (c # out)))"

definition cell_record_range_clean :: "cell_record list \<Rightarrow> swc_error + cell_record list" where
  "cell_record_range_clean input =
     renumber_cells 0 Map.empty (sort_cells (read_records init_read_state input))"

subsection \<open>Notions used to state the properties of the normaliser\<close>

text \<open>A root record has no parent: its parent id is -1.\<close>

abbreviation is_root :: "cell_record \<Rightarrow> bool" where
  "is_root c \<equiv> cr_parent_id c = -1"

text \<open>
  The records collected by the first loop (the member \<open>cells_\<close> before sorting), and the
  same records in the order in which the second loop renumbers them.
\<close>

definition retained :: "cell_record list \<Rightarrow> cell_record list" where
  "retained input = cells (read_records init_read_state input)"

definition sorted_retained :: "cell_record list \<Rightarrow> cell_record list" where
  "sorted_retained input = sort_cells (read_records init_read_state input)"

text \<open>
  A canonical sequence, in the words of the spec: dense zero-based ids, every parent
  preceding its children, a single tree, no duplicate ids.
\<close>

definition canonical :: "cell_record list \<Rightarrow> bool" where
  "canonical cs =
     (map cr_id cs = map int [0..<length cs]
      \<and> (\<forall>i\<in>{0..<length cs}. cr_parent_id (cs ! i) = -1
            \<or> (\<exists>j\<in>{0..<i}. cr_id (cs ! j) = cr_parent_id (cs ! i)))
      \<and> length (filter is_root cs) \<le> 1
      \<and> distinct (map cr_id cs))"

text \<open>
  A well-formed input, after the data model of the spec: every raw record has passed
  \<open>check_consistency\<close> (the constructor of \<open>cell_record\<close> runs it, as the comment in
  \<open>parse_value_strict\<close> says), no id occurs twice, and the parent id of every record that
  is not a root is the id of a record of the input.
\<close>

definition well_formed_input :: "cell_record list \<Rightarrow> bool" where
  "well_formed_input input =
     ((\<forall>c\<in>set input. check_consistency c = Inr ())
      \<and> distinct (map cr_id input)
      \<and> (\<forall>c\<in>set input. is_root c \<or> cr_parent_id c \<in> cr_id ` set input))"

text \<open>
  Consistent renumbering of the records \<open>pre\<close> into the records \<open>out\<close>: the ids of \<open>out\<close>
  are 0, 1, ..., n-1, a root stays a root, and the parent of any other record is the new
  id of the record that carries its original parent id, which stands in front of it.
\<close>

definition renumbered_consistently :: "cell_record list \<Rightarrow> cell_record list \<Rightarrow> bool" where
  "renumbered_consistently pre out =
     (length out = length pre
      \<and> map cr_id out = map int [0..<length out]
      \<and> (\<forall>i\<in>{0..<length out}.
            if is_root (pre ! i) then is_root (out ! i)
            else (\<exists>j\<in>{0..<i}. cr_id (pre ! j) = cr_parent_id (pre ! i)
                                  \<and> cr_parent_id (out ! i) = cr_id (out ! j))))"

text \<open>
  The position \<open>k\<close> of the second root record of the input, or the length of the input
  when it has at most one root record: the records in front of position \<open>k\<close> hold at most
  one root, and the record at position \<open>k\<close>, when there is one, is a root that follows
  another.
\<close>

definition second_root_at :: "cell_record list \<Rightarrow> nat \<Rightarrow> bool" where
  "second_root_at input k =
     (k \<le> length input
      \<and> length (filter is_root (take k input)) \<le> 1
      \<and> (k < length input \<longrightarrow>
            is_root (input ! k) \<and> length (filter is_root (take k input)) = 1))"

text \<open>
  An input whose first tree is complete in front of the second root record: every raw
  record has passed \<open>check_consistency\<close>, and the parent id of every record in front of
  position \<open>k\<close> that is not a root is the id of a record in front of position \<open>k\<close>. The
  condition speaks of the input alone.
\<close>

definition valid_input :: "cell_record list \<Rightarrow> nat \<Rightarrow> bool" where
  "valid_input input k =
     ((\<forall>c\<in>set input. check_consistency c = Inr ())
      \<and> second_root_at input k
      \<and> (\<forall>c\<in>set (take k input).
            is_root c \<or> cr_parent_id c \<in> cr_id ` set (take k input)))"

text \<open>The value a parent reference gets from the renumbering map: unchanged when absent.\<close>

definition new_id :: "(int \<rightharpoonup> int) \<Rightarrow> int \<Rightarrow> int" where
  "new_id m p = (case m p of Some v \<Rightarrow> v | None \<Rightarrow> p)"

text \<open>The invariant of the first loop.\<close>

definition read_inv :: "read_state \<Rightarrow> bool" where
  "read_inv s =
     (ids s = cr_id ` set (cells s) \<and> distinct (map cr_id (cells s))
      \<and> (cells s \<noteq> [] \<longrightarrow> last_id s = cr_id (last (cells s)))
      \<and> (\<not> needsort s \<longrightarrow> sorted_wrt (<) (map cr_id (cells s))))"

text \<open>
  The two passes that the first loop fuses: the records in front of the second root record
  (\<open>n\<close> roots have been seen so far), and the first record of every id (\<open>seen\<close> holds the
  ids met so far).
\<close>

fun before_second_root :: "nat \<Rightarrow> cell_record list \<Rightarrow> cell_record list" where
  "before_second_root n [] = []"
| "before_second_root n (c # cs) =
     (if cr_parent_id c = -1 then (if n \<ge> 1 then [] else c # before_second_root (Suc n) cs)
      else c # before_second_root n cs)"

fun first_by_id :: "int set \<Rightarrow> cell_record list \<Rightarrow> cell_record list" where
  "first_by_id seen [] = []"
| "first_by_id seen (c # cs) =
     (if cr_id c \<in> seen then first_by_id seen cs
      else c # first_by_id (insert (cr_id c) seen) cs)"

text \<open>
  The tree a record belongs to: the id of the root reached by following the parent
  references through the input, with as many steps as there are records.
\<close>

fun tree_root_from :: "nat \<Rightarrow> cell_record list \<Rightarrow> int \<Rightarrow> int option" where
  "tree_root_from 0 cs i = None"
| "tree_root_from (Suc n) cs i =
     (case find (\<lambda>c. cr_id c = i) cs of
        None \<Rightarrow> None
      | Some c \<Rightarrow> if is_root c then Some (cr_id c) else tree_root_from n cs (cr_parent_id c))"

definition tree_root :: "cell_record list \<Rightarrow> cell_record \<Rightarrow> int option" where
  "tree_root cs c =
     (if is_root c then Some (cr_id c) else tree_root_from (length cs) cs (cr_parent_id c))"

text \<open>
  Keeping the first tree and dropping exactly the second: with more than one root in the
  input, every record of the tree of the first root is collected, and the records that
  are not collected are exactly those of the tree of the second root.
\<close>

definition drops_second_tree_only :: "cell_record list \<Rightarrow> bool" where
  "drops_second_tree_only input =
     (case filter is_root input of
        r1 # r2 # _ \<Rightarrow>
          (\<forall>c\<in>set input. tree_root input c = Some (cr_id r1) \<longrightarrow> c \<in> set (retained input))
          \<and> (\<forall>c\<in>set input. (c \<notin> set (retained input)) = (tree_root input c = Some (cr_id r2)))
      | _ \<Rightarrow> True)"

text \<open>Example records and inputs.\<close>

definition ex_rec :: "int \<Rightarrow> int \<Rightarrow> cell_record" where
  "ex_rec i p = \<lparr>cr_type = 1, cr_id = i, cr_x = 0, cr_y = 0, cr_z = 0, cr_r = 1, cr_parent_id = p\<rparr>"

definition scrambled_input :: "cell_record list" where
  "scrambled_input =
     [ex_rec 3 1, ex_rec 1 (-1), ex_rec 7 3, ex_rec 4 1, ex_rec 3 1, ex_rec 9 (-1), ex_rec 10 9]"

text \<open>
  Two well-formed inputs in which a record of the first tree follows the second root: in
  the first one the record with id 3 has the parent 1, in the second one the record with
  id 2 has it, and the record with id 1 comes last.
\<close>

definition interleaved_input :: "cell_record list" where
  "interleaved_input = [ex_rec 0 (-1), ex_rec 2 0, ex_rec 3 1, ex_rec 7 (-1), ex_rec 1 0]"

definition interleaved_input2 :: "cell_record list" where
  "interleaved_input2 = [ex_rec 0 (-1), ex_rec 2 1, ex_rec 5 (-1), ex_rec 1 0]"

definition two_trees_input :: "cell_record list" where
  "two_trees_input = [ex_rec 0 (-1), ex_rec 1 0, ex_rec 1 0, ex_rec 5 (-1), ex_rec 6 5, ex_rec 2 0]"

section \<open>The record parser (swcio.cpp)\<close>

text \<open>
  The input stream: the characters not yet read, and the state bits \<open>eofbit\<close>, \<open>failbit\<close>
  and \<open>badbit\<close> of \<open>std::ios\<close>.
\<close>

record istream =
  content :: string
  eofbit :: bool
  failbit :: bool
  badbit :: bool

definition good :: "istream \<Rightarrow> bool" where
  "good strm = (\<not> eofbit strm \<and> \<not> failbit strm \<and> \<not> badbit strm)"

definition newline :: char where
  "newline = CHR 0x0A"

text \<open>
  \<open>std::getline(is, str)\<close>. On a stream that is not good the sentry sets \<open>failbit\<close> and
  the string is left as it is. Otherwise the string is erased and characters are moved to
  it up to the next newline, which is removed from the stream and not stored; when the
  end of the stream is met first, \<open>eofbit\<close> is set, and \<open>failbit\<close> as well when no
  character was extracted. (The limit \<open>str.max_size()\<close>, the only other way to set
  \<open>failbit\<close>, is not modelled.)
\<close>

definition getline :: "istream \<Rightarrow> string \<Rightarrow> istream \<times> string" where
  "getline strm str =
     (if \<not> good strm then (strm\<lparr>failbit := True\<rparr>, str)
      else
        let line = takeWhile (\<lambda>c. c \<noteq> newline) (content strm);
            rest = dropWhile (\<lambda>c. c \<noteq> newline) (content strm)
        in case rest of
             [] \<Rightarrow> (strm\<lparr>content := [], eofbit := True, failbit := (line = [])\<rparr>, line)
           | _ # rest' \<Rightarrow> (strm\<lparr>content := rest'\<rparr>, line))"

text \<open>
  \<open>std::string::find\<close>: the first position at which the argument occurs, \<open>None\<close> for
  \<open>npos\<close>.
\<close>

fun find_str :: "string \<Rightarrow> string \<Rightarrow> nat option" where
  "find_str [] p = (if p = [] then Some 0 else None)"
| "find_str (c # s) p =
     (if prefix p (c # s) then Some 0 else map_option Suc (find_str s p))"

definition starts_with :: "string \<Rightarrow> string \<Rightarrow> bool" where
  "starts_with str pre = (find_str str pre = Some 0)"

record swc_parser =
  linebuff :: string
  lineno :: nat
  comment_prefix :: string

text \<open>
  The loop of \<open>swc_parser::parse_record\<close> that consumes empty and comment lines. It
  need not end: on a stream with \<open>failbit\<close> set and \<open>eofbit\<close> clear \<open>getline\<close> reads
  nothing and the condition of the loop stays true. \<open>None\<close> stands for a loop that does
  not return.
\<close>

partial_function (option) skip_lines :: "swc_parser \<times> istream \<Rightarrow> (swc_parser \<times> istream) option" where
  "skip_lines ps =
     (case ps of (p, strm) \<Rightarrow>
        if \<not> eofbit strm \<and> \<not> badbit strm then
          (case getline strm (linebuff p) of (strm', lb) \<Rightarrow>
             let p' = p\<lparr>linebuff := lb, lineno := lineno p + 1\<rparr>
             in if lb \<noteq> [] \<and> \<not> starts_with lb (comment_prefix p') then Some (p', strm')
                else skip_lines (p', strm'))
        else Some (p, strm))"

declare skip_lines.simps [code]

text \<open>
  \<open>swc_parser::parse_record(std::istream&, cell_record&)\<close>. The conversion of the line
  buffer to a record (the overload on \<open>std::istringstream\<close>, built on the extraction
  operators of the stream library) is the parameter \<open>parse_line\<close>; it gets the parser for
  the line number of its errors. An \<open>invalid_argument\<close> of the conversion is thrown again
  as a parse error.
\<close>

definition parse_record ::
  "(swc_parser \<Rightarrow> string \<Rightarrow> swc_error + cell_record) \<Rightarrow> swc_parser \<Rightarrow> istream \<Rightarrow> cell_record
     \<Rightarrow> (swc_error + (swc_parser \<times> istream \<times> cell_record)) option" where
  "parse_record parse_line p0 strm0 cell =
     (case skip_lines (p0, strm0) of
        None \<Rightarrow> None
      | Some (p, strm) \<Rightarrow>
          Some (if badbit strm then Inr (p, strm, cell)
                else if eofbit strm \<and> (linebuff p = [] \<or> starts_with (linebuff p) (comment_prefix p))
                  then Inr (p, strm, cell)
                else if failbit strm then Inl (swc_parse_error ''too long line detected'' (lineno p))
                else (case parse_line p (linebuff p) of
                        Inl (invalid_argument msg) \<Rightarrow> Inl (swc_parse_error msg (lineno p))
                      | Inl e \<Rightarrow> Inl e
                      | Inr c \<Rightarrow> Inr (p, strm, c))))"

text \<open>
  The lines of a text: the pieces between its newline characters. The piece after the last
  newline, empty or not, is the last line; it is what \<open>getline\<close> reads when it meets the
  end of the stream.
\<close>

fun lines_of :: "string \<Rightarrow> string list" where
  "lines_of [] = [[]]"
| "lines_of (c # cs) =
     (if c = newline then [] # lines_of cs
      else (case lines_of cs of l # ls \<Rightarrow> (c # l) # ls | [] \<Rightarrow> [[c]]))"

definition blank_or_comment :: "swc_parser \<Rightarrow> string \<Rightarrow> bool" where
  "blank_or_comment p l = (l = [] \<or> prefix (comment_prefix p) l)"

text \<open>An example stream of comment and empty lines, and a parser as constructed.\<close>

definition blank_stream :: istream where
  "blank_stream =
     \<lparr>content = ''# comment'' @ [newline, newline] @ ''#x'' @ [newline],
      eofbit = False, failbit = False, badbit = False\<rparr>"

definition fresh_parser :: swc_parser where
  "fresh_parser = \<lparr>linebuff = [], lineno = 0, comment_prefix = ''#''\<rparr>"

definition no_parse :: "swc_parser \<Rightarrow> string \<Rightarrow> swc_error + cell_record" where
  "no_parse p l = Inl (swc_parse_error ''could not parse value'' (lineno p))"

text \<open>
  A stream that holds one data line without a final newline, and the conversion at this
  line: the seven fields \<open>1 1 0 0 0 1 -1\<close> give the record with type 1, id 0 (ids are made
  zero-based), position 0, radius 1 and no parent, which is \<open>ex_rec 0 (-1)\<close>. The parser
  and the stream after this line has been read: the line is still in the buffer and the
  end of the stream has been met.
\<close>

definition data_stream :: istream where
  "data_stream =
     \<lparr>content = ''1 1 0 0 0 1 -1'', eofbit = False, failbit = False, badbit = False\<rparr>"

definition parse_example :: "swc_parser \<Rightarrow> string \<Rightarrow> swc_error + cell_record" where
  "parse_example p l =
     (if l = ''1 1 0 0 0 1 -1'' then Inr (ex_rec 0 (-1))
      else Inl (swc_parse_error ''could not parse value'' (lineno p)))"

definition stale_parser :: swc_parser where
  "stale_parser = \<lparr>linebuff = ''1 1 0 0 0 1 -1'', lineno = 1, comment_prefix = ''#''\<rparr>"

definition stale_stream :: istream where
  "stale_stream = \<lparr>content = [], eofbit = True, failbit = False, badbit = False\<rparr>"

text \<open>
  A stream on which an earlier operation has failed (a file that could not be opened, for
  one), and the states in which the loop of \<open>parse_record\<close> makes no progress: \<open>failbit\<close>
  is set, \<open>eofbit\<close> and \<open>badbit\<close> are clear, and the line buffer is empty or a comment.
\<close>

definition failed_stream :: istream where
  "failed_stream = \<lparr>content = [], eofbit = False, failbit = True, badbit = False\<rparr>"

definition stuck :: "swc_parser \<times> istream \<Rightarrow> bool" where
  "stuck ps = (failbit (snd ps) \<and> \<not> eofbit (snd ps) \<and> \<not> badbit (snd ps)
     \<and> (linebuff (fst ps) = [] \<or> starts_with (linebuff (fst ps)) (comment_prefix (fst ps))))"

text \<open>
  Skipping empty and comment lines only: the call returns without an exception, with the
  record it was given and with the line counter advanced by the number of lines.
\<close>

definition skips_blank_lines ::
  "(swc_parser \<Rightarrow> string \<Rightarrow> swc_error + cell_record) \<Rightarrow> swc_parser \<Rightarrow> istream \<Rightarrow> cell_record
     \<Rightarrow> bool" where
  "skips_blank_lines parse_line p strm cell =
     (case parse_record parse_line p strm cell of
        Some (Inr (p', strm', cell')) \<Rightarrow>
          cell' = cell \<and> content strm' = []
          \<and> lineno p' = lineno p + length (lines_of (content strm))
      | _ \<Rightarrow> False)"

section \<open>The morphology tree\<close>

text \<open>
  Modelled from the spec: the class \<open>cell_tree\<close> (\<open>cell_tree.hpp\<close>) is not among the
  sources, only its test is. Following section 4.1 of the spec, a tree is an ordered
  collection of branches, each with its parent branch and the list of its child branches;
  the root is branch 0 and is its own parent.
\<close>

record cell_tree =
  branch_children :: "nat list list"
  branch_parents :: "nat list"

datatype tree_error = branch_out_of_range

text \<open>
  Modelled from the spec: the construction of section 4.1. Node \<open>j > 0\<close> has the parent
  \<open>parent_index[j]\<close>; entry 0 belongs to the root and is not an edge. Chains of
  single-child nodes are merged into branches: the root is a branch of its own, and a
  branch ends at a node with no child or with two or more children, so the nodes that begin
  a branch are the root, the children of the root and the children of a node with two or
  more children.
\<close>

definition child_nodes :: "int list \<Rightarrow> nat \<Rightarrow> nat list" where
  "child_nodes p i = filter (\<lambda>j. p ! j = int i) [1..<length p]"

definition branch_start :: "int list \<Rightarrow> nat \<Rightarrow> bool" where
  "branch_start p i = (i = 0 \<or> p ! i = 0 \<or> 2 \<le> length (child_nodes p (nat (p ! i))))"

text \<open>
  Modelled from the spec: the branch of every node, computed in the order of the nodes
  (\<open>parent[i] < i\<close>): a node that begins a branch gets the next branch index, any other
  node the branch of its parent.
\<close>

definition node_branches :: "int list \<Rightarrow> nat list" where
  "node_branches p =
     fold (\<lambda>i acc. acc @ [if branch_start p i then length (filter (branch_start p) [0..<i])
                           else acc ! nat (p ! i)])
       [0..<length p] []"

text \<open>
  Modelled from the spec: the constructor. An empty parent-index array is replaced by the
  single-entry array \<open>[0]\<close> (the normalisation rule of the spec), so that it yields the
  one-branch tree of a single compartment.
\<close>

definition make_cell_tree :: "int list \<Rightarrow> cell_tree" where
  "make_cell_tree parent_index =
     (let p = (if parent_index = [] then [0] else parent_index);
          starts = filter (branch_start p) [0..<length p];
          nb = node_branches p
      in \<lparr>branch_children =
            map (\<lambda>b. map (\<lambda>s. nb ! s) (filter (\<lambda>s. s \<noteq> 0 \<and> nb ! nat (p ! s) = b) starts))
              [0..<length starts],
          branch_parents = map (\<lambda>s. if s = 0 then 0 else nb ! nat (p ! s)) starts\<rparr>)"

definition num_branches :: "cell_tree \<Rightarrow> nat" where
  "num_branches t = length (branch_children t)"

text \<open>
  Modelled from the spec: \<open>num_children\<close> returns the out-degree of a branch and fails when
  the branch index is out of range.
\<close>

definition num_children :: "cell_tree \<Rightarrow> nat \<Rightarrow> tree_error + nat" where
  "num_children t b =
     (if b < num_branches t then Inr (length (branch_children t ! b))
      else Inl branch_out_of_range)"

section \<open>The cell group (\<open>mc_cell_group\<close>)\<close>

text \<open>
  Times and values are floating point numbers in the source (\<open>time_type\<close>, \<open>value_type\<close>);
  the cell group only compares and copies them, and they are modelled as reals. Cell
  identifiers and indices are natural numbers.
\<close>

record cell_member_type =
  gid :: nat
  index :: nat

record postsynaptic_spike_event =
  ev_target :: cell_member_type
  ev_time :: real
  ev_weight :: real

record sample_event =
  sampler_index :: nat
  sample_time :: real

record sample_record =
  sr_time :: real
  sr_value :: real

record spike =
  spike_source :: cell_member_type
  spike_time :: real

text \<open>A threshold crossing reported by the integrator: local source index and time.\<close>

record crossing =
  crossing_index :: nat
  crossing_time :: real

text \<open>
  Precondition violations: a failed \<open>EXPECTS\<close> assertion (the assertions are taken as
  enabled; a failed one ends the call), and an index outside a vector (undefined behaviour
  in the source).
\<close>

datatype engine_error = assertion_failed | out_of_range

subsection \<open>The event queue\<close>

text \<open>
  Modelled from the spec: the class \<open>event_queue\<close> (\<open>event_queue.hpp\<close>) is not among the
  sources. By the spec it orders events by delivery time, ties in insertion order;
  \<open>pop_if_before\<close> removes and returns the earliest event when its time is strictly
  before the argument, \<open>time_if_before\<close> returns the time of that event, and \<open>push\<close>
  adds an event. The queue is the list of pending events in insertion order.
\<close>

fun earliest :: "('e \<Rightarrow> real) \<Rightarrow> 'e \<Rightarrow> 'e list \<Rightarrow> 'e" where
  "earliest tm e [] = e"
| "earliest tm e (x # xs) = earliest tm (if tm x < tm e then x else e) xs"

definition pop_if_before :: "('e \<Rightarrow> real) \<Rightarrow> real \<Rightarrow> 'e list \<Rightarrow> ('e \<times> 'e list) option" where
  "pop_if_before tm t_until q =
     (case q of
        [] \<Rightarrow> None
      | x # xs \<Rightarrow>
          (let e = earliest tm x xs
           in if tm e < t_until then Some (e, remove1 e q) else None))"

definition time_if_before :: "('e \<Rightarrow> real) \<Rightarrow> real \<Rightarrow> 'e list \<Rightarrow> real option" where
  "time_if_before tm t_until q =
     (case q of
        [] \<Rightarrow> None
      | x # xs \<Rightarrow>
          (let e = earliest tm x xs
           in if tm e < t_until then Some (tm e) else None))"

definition push :: "'e list \<Rightarrow> 'e \<Rightarrow> 'e list" where
  "push q e = q @ [e]"

lemma earliest_in: "earliest tm e xs \<in> set (e # xs)"
  by (induction xs arbitrary: e) auto

lemma earliest_le: "y \<in> set (e # xs) \<Longrightarrow> tm (earliest tm e xs) \<le> tm y"
proof (induction xs arbitrary: e y)
  case Nil
  then show ?case by simp
next
  case (Cons x xs)
  have a: "tm (earliest tm (if tm x < tm e then x else e) xs) \<le> tm (if tm x < tm e then x else e)"
    by (rule Cons.IH) simp
  show ?case
  proof (cases "y \<in> set xs")
    case True
    then show ?thesis using Cons.IH by simp
  next
    case False
    then have "y = e \<or> y = x" using Cons.prems by auto
    then show ?thesis using a by (auto split: if_splits)
  qed
qed

lemma pop_if_before_Some:
  assumes "pop_if_before tm t q = Some (e, q')"
  shows "tm e < t" and "e \<in> set q" and "mset q = add_mset e (mset q')"
    and "length q' < length q" and "q' = remove1 e q"
proof -
  from assms obtain x xs where q: "q = x # xs" and e: "e = earliest tm x xs"
    and lt: "tm e < t" and q': "q' = remove1 e q"
    by (auto simp: pop_if_before_def Let_def split: list.splits if_splits)
  show "tm e < t" by (rule lt)
  show mem: "e \<in> set q" using earliest_in[of tm x xs] q e by simp
  show "mset q = add_mset e (mset q')" using mem q' by simp
  show "length q' < length q"
    unfolding q' using mem length_pos_if_in_set[of e q] by (simp add: length_remove1)
  show "q' = remove1 e q" by (rule q')
qed

lemma pop_if_before_None:
  assumes "pop_if_before tm t q = None" and "y \<in> set q"
  shows "t \<le> tm y"
proof -
  from assms(2) obtain x xs where q: "q = x # xs" by (cases q) auto
  with assms(1) have "\<not> tm (earliest tm x xs) < t"
    by (auto simp: pop_if_before_def Let_def split: if_splits)
  moreover have "tm (earliest tm x xs) \<le> tm y" using earliest_le[of y x xs tm] assms(2) q by simp
  ultimately show ?thesis by simp
qed

subsection \<open>The collaborators\<close>

text \<open>
  The lowered cell is the template parameter \<open>LoweredCell\<close> of the class: a state of type
  \<open>'l\<close> and the operations that \<open>advance\<close> calls on it. (\<open>is_physical_solution\<close> only feeds
  a warning on the error stream and is left out.)
\<close>

record ('l, 'th, 'ph) lowered_cell =
  state_synchronized :: "'l \<Rightarrow> bool"
  min_time :: "'l \<Rightarrow> real"
  max_time :: "'l \<Rightarrow> real"
  cell_time :: "'l \<Rightarrow> nat \<Rightarrow> real"
  add_event :: "real \<Rightarrow> 'th \<Rightarrow> real \<Rightarrow> 'l \<Rightarrow> 'l"
  setup_integration :: "real \<Rightarrow> real \<Rightarrow> 'l \<Rightarrow> 'l"
  integration_complete :: "'l \<Rightarrow> bool"
  step_integration :: "'l \<Rightarrow> 'l"
  probe :: "'l \<Rightarrow> 'ph \<Rightarrow> real"
  get_spikes :: "'l \<Rightarrow> crossing list"
  clear_spikes :: "'l \<Rightarrow> 'l"

text \<open>
  A sampler association of the sampler map: its schedule (a state of type \<open>'sch\<close>), the
  callback (of type \<open>'f\<close>; an empty \<open>std::function\<close> is \<open>None\<close>) and the probe ids.
\<close>

record ('sch, 'f) sampler_association =
  sched :: 'sch
  sampler :: "'f option"
  probe_ids :: "cell_member_type list"

record 'ph probe_info =
  handle :: 'ph
  tag :: int

text \<open>The local struct \<open>sampler_entry\<close> of \<open>advance\<close>.\<close>

record ('ph, 'f) sampler_entry =
  se_handle :: 'ph
  se_tag :: int
  se_probe_id :: cell_member_type
  se_sampler :: "'f option"

text \<open>
  The calls that \<open>advance\<close> makes to its collaborators are recorded: a delivery is a call
  \<open>lowered_.add_event(binned_ev_time, handle, ev->weight)\<close> together with the event \<open>ev\<close>
  it is made for, and a sampler call is a call \<open>s.sampler(s.probe_id, s.tag, 1u, &record)\<close>
  together with the sample event it answers.
\<close>

record 'th delivery =
  dl_event :: postsynaptic_spike_event
  dl_time :: real
  dl_handle :: 'th

record 'f sampler_call =
  call_sampler :: 'f
  call_probe_id :: cell_member_type
  call_tag :: int
  call_count :: nat
  call_record :: sample_record
  call_event :: sample_event

text \<open>
  The members of \<open>mc_cell_group\<close>. The last two fields are not members of the class: they
  hold the calls recorded so far.
\<close>

record ('l, 'th, 'ph, 'sch, 'f, 'b) mc_cell_group =
  gids :: "nat list"
  gid_index_map :: "nat \<rightharpoonup> nat"
  lowered :: 'l
  spike_sources :: "cell_member_type list"
  spikes :: "spike list"
  binner :: 'b
  events :: "postsynaptic_spike_event list"
  sample_events :: "sample_event list"
  target_handles :: "'th list"
  probe_map :: "cell_member_type \<rightharpoonup> 'ph probe_info"
  sampler_map :: "('sch, 'f) sampler_association list"
  target_handle_divisions :: "nat list"
  added_events :: "'th delivery list"
  sampler_calls :: "'f sampler_call list"

definition gid_to_index ::
  "('l, 'th, 'ph, 'sch, 'f, 'b) mc_cell_group \<Rightarrow> nat \<Rightarrow> engine_error + nat" where
  "gid_to_index g i = (case gid_index_map g i of None \<Rightarrow> Inl assertion_failed | Some k \<Rightarrow> Inr k)"

definition get_target_handle ::
  "('l, 'th, 'ph, 'sch, 'f, 'b) mc_cell_group \<Rightarrow> cell_member_type \<Rightarrow> engine_error + 'th" where
  "get_target_handle g tid =
     (case gid_to_index g (gid tid) of
        Inl e \<Rightarrow> Inl e
      | Inr i \<Rightarrow>
          if i < length (target_handle_divisions g) then
            (let k = target_handle_divisions g ! i + index tid
             in if k < length (target_handles g) then Inr (target_handles g ! k)
                else Inl out_of_range)
          else Inl out_of_range)"

subsection \<open>advance\<close>

text \<open>
  The first loop of \<open>advance\<close>: pending events before \<open>tfinal\<close> are popped, binned and
  passed to the lowered cell. The event binner (\<open>event_binner.hpp\<close>) is not among the
  sources; its state has type \<open>'b\<close> and its member function \<open>bin\<close> is the parameter \<open>bin\<close>,
  which returns the bin time and the new state of the binner.
\<close>

function deliver_events ::
  "('l, 'th, 'ph) lowered_cell \<Rightarrow> ('b \<Rightarrow> nat \<Rightarrow> real \<Rightarrow> real \<Rightarrow> real \<times> 'b) \<Rightarrow> real \<Rightarrow> real
     \<Rightarrow> ('l, 'th, 'ph, 'sch, 'f, 'b) mc_cell_group
     \<Rightarrow> engine_error + ('l, 'th, 'ph, 'sch, 'f, 'b) mc_cell_group" where
  "deliver_events L bin tfinal ev_min_time g =
     (case pop_if_before ev_time tfinal (events g) of
        None \<Rightarrow> Inr g
      | Some (ev, q) \<Rightarrow>
          (case get_target_handle g (ev_target ev) of
             Inl e \<Rightarrow> Inl e
           | Inr h \<Rightarrow>
               (case bin (binner g) (gid (ev_target ev)) (ev_time ev) ev_min_time of
                  (binned_ev_time, b) \<Rightarrow>
                    deliver_events L bin tfinal ev_min_time
                      (g\<lparr>events := q,
                         binner := b,
                         lowered := add_event L binned_ev_time h (ev_weight ev) (lowered g),
                         added_events := added_events g @
                           [\<lparr>dl_event = ev, dl_time = binned_ev_time, dl_handle = h\<rparr>]\<rparr>))))"
  by pat_completeness auto
termination
  by (relation "measure (\<lambda>(L, bin, tfinal, ev_min_time, g). length (events g))")
     (auto dest: pop_if_before_Some(4))

declare deliver_events.simps [simp del]

text \<open>
  Setting up the sample events. For one association with a non-empty list \<open>ts\<close> of sample
  times, every probe id gets the next slot of the table \<open>samplers\<close> and one sample event
  per time; \<open>EXPECTS(probe_map_.count(p)>0)\<close> fails for an unknown probe id.
\<close>

fun setup_probes ::
  "(cell_member_type \<rightharpoonup> 'ph probe_info) \<Rightarrow> 'f option \<Rightarrow> real list \<Rightarrow> cell_member_type list
     \<Rightarrow> ('ph, 'f) sampler_entry list \<times> sample_event list
     \<Rightarrow> engine_error + (('ph, 'f) sampler_entry list \<times> sample_event list)" where
  "setup_probes pm f ts [] st = Inr st"
| "setup_probes pm f ts (p # ps) (samplers, q) =
     (case pm p of
        None \<Rightarrow> Inl assertion_failed
      | Some pinfo \<Rightarrow>
          setup_probes pm f ts ps
            (samplers @ [\<lparr>se_handle = handle pinfo, se_tag = tag pinfo, se_probe_id = p,
                          se_sampler = f\<rparr>],
             foldl push q (map (\<lambda>t. \<lparr>sampler_index = length samplers, sample_time = t\<rparr>) ts)))"

text \<open>
  The loop over the sampler map. The class \<open>schedule\<close> is not among the sources; its
  state has type \<open>'sch\<close> and its member function \<open>events(t0, t1)\<close>, which returns the sample
  times in the window and advances the schedule, is the parameter \<open>sched_events\<close>. The
  associations are visited by reference, so the loop returns them with their new schedules.
\<close>

fun setup_samplers ::
  "('sch \<Rightarrow> real \<Rightarrow> real \<Rightarrow> real list \<times> 'sch) \<Rightarrow> (cell_member_type \<rightharpoonup> 'ph probe_info)
     \<Rightarrow> real \<Rightarrow> real \<Rightarrow> ('sch, 'f) sampler_association list
     \<Rightarrow> ('sch, 'f) sampler_association list \<times> ('ph, 'f) sampler_entry list \<times> sample_event list
     \<Rightarrow> engine_error +
         (('sch, 'f) sampler_association list \<times> ('ph, 'f) sampler_entry list \<times> sample_event list)"
  where
  "setup_samplers sched_events pm tstart tfinal [] st = Inr st"
| "setup_samplers sched_events pm tstart tfinal (assoc # rest) (visited, samplers, q) =
     (case sched_events (sched assoc) tstart tfinal of
        (ts, sch) \<Rightarrow>
          (let assoc' = assoc\<lparr>sched := sch\<rparr>
           in if ts = [] then
                setup_samplers sched_events pm tstart tfinal rest (visited @ [assoc'], samplers, q)
              else
                (case setup_probes pm (sampler assoc) ts (probe_ids assoc) (samplers, q) of
                   Inl e \<Rightarrow> Inl e
                 | Inr (samplers', q') \<Rightarrow>
                     setup_samplers sched_events pm tstart tfinal rest
                       (visited @ [assoc'], samplers', q'))))"

text \<open>
  The inner loop of the sampling step: sample events before \<open>cell_max_time\<close> are popped;
  an event whose cell has not reached its time goes to \<open>requeue_sample_events\<close>, any other
  is answered by a call of the sampler with the record \<open>{cell_time, &value}\<close>.
\<close>

function take_samples ::
  "('l, 'th, 'ph) lowered_cell \<Rightarrow> ('ph, 'f) sampler_entry list \<Rightarrow> real
     \<Rightarrow> ('l, 'th, 'ph, 'sch, 'f, 'b) mc_cell_group \<times> sample_event list
     \<Rightarrow> engine_error + (('l, 'th, 'ph, 'sch, 'f, 'b) mc_cell_group \<times> sample_event list)" where
  "take_samples L samplers cell_max_time (g, requeue) =
     (case pop_if_before sample_time cell_max_time (sample_events g) of
        None \<Rightarrow> Inr (g, requeue)
      | Some (m, q) \<Rightarrow>
          if length samplers \<le> sampler_index m then Inl out_of_range
          else
            (let s = samplers ! sampler_index m
             in case se_sampler s of
                  None \<Rightarrow> Inl assertion_failed
                | Some f \<Rightarrow>
                    (case gid_to_index g (gid (se_probe_id s)) of
                       Inl e \<Rightarrow> Inl e
                     | Inr i \<Rightarrow>
                         (let t = cell_time L (lowered g) i
                          in if t < sample_time m then
                               take_samples L samplers cell_max_time
                                 (g\<lparr>sample_events := q\<rparr>, requeue @ [m])
                             else
                               (let v = probe L (lowered g) (se_handle s);
                                    r = \<lparr>sr_time = t, sr_value = v\<rparr>
                                in take_samples L samplers cell_max_time
                                     (g\<lparr>sample_events := q,
                                        sampler_calls := sampler_calls g @
                                          [\<lparr>call_sampler = f, call_probe_id = se_probe_id s,
                                            call_tag = se_tag s, call_count = 1,
                                            call_record = r, call_event = m\<rparr>]\<rparr>,
                                      requeue))))))"
  by pat_completeness auto
termination
  by (relation "measure (\<lambda>(L, samplers, cell_max_time, g, requeue). length (sample_events g))")
     (auto dest: pop_if_before_Some(4))

declare take_samples.simps [simp del]

text \<open>
  The sampling step of one iteration of the integration loop: the events set aside are
  pushed back and \<open>first_sample_time\<close> is computed again.
\<close>

definition sampling_step ::
  "('l, 'th, 'ph) lowered_cell \<Rightarrow> ('ph, 'f) sampler_entry list \<Rightarrow> real
     \<Rightarrow> ('l, 'th, 'ph, 'sch, 'f, 'b) mc_cell_group
     \<Rightarrow> engine_error + (('l, 'th, 'ph, 'sch, 'f, 'b) mc_cell_group \<times> real option)" where
  "sampling_step L samplers tfinal g =
     (case take_samples L samplers (max_time L (lowered g)) (g, []) of
        Inl e \<Rightarrow> Inl e
      | Inr (g1, requeue) \<Rightarrow>
          (let g2 = g1\<lparr>sample_events := foldl push (sample_events g1) requeue\<rparr>
           in Inr (g2, time_if_before sample_time tfinal (sample_events g2))))"

text \<open>
  The integration loop \<open>while (!lowered_.integration_complete())\<close>. Whether it ends
  depends on the lowered cell; \<open>None\<close> stands for a loop that does not return.
\<close>

partial_function (option) integrate ::
  "('l, 'th, 'ph) lowered_cell \<Rightarrow> ('ph, 'f) sampler_entry list \<Rightarrow> real
     \<Rightarrow> ('l, 'th, 'ph, 'sch, 'f, 'b) mc_cell_group \<times> real option
     \<Rightarrow> (engine_error + ('l, 'th, 'ph, 'sch, 'f, 'b) mc_cell_group) option" where
  "integrate L samplers tfinal st =
     (case st of (g, first_sample_time) \<Rightarrow>
        if integration_complete L (lowered g) then Some (Inr g)
        else
          (case (if first_sample_time \<noteq> None then sampling_step L samplers tfinal g
                 else Inr (g, first_sample_time)) of
             Inl e \<Rightarrow> Some (Inl e)
           | Inr (g1, first_sample_time1) \<Rightarrow>
               integrate L samplers tfinal
                 (g1\<lparr>lowered := step_integration L (lowered g1)\<rparr>, first_sample_time1)))"

declare integrate.simps [code]

text \<open>
  The last loop: every threshold crossing becomes a spike with the global identifier of
  its source, \<open>spike_sources_[c.index]\<close>.
\<close>

fun generate_spikes ::
  "cell_member_type list \<Rightarrow> crossing list \<Rightarrow> spike list \<Rightarrow> engine_error + spike list" where
  "generate_spikes sources [] sp = Inr sp"
| "generate_spikes sources (c # cs) sp =
     (if crossing_index c < length sources then
        generate_spikes sources cs
          (sp @ [\<lparr>spike_source = sources ! crossing_index c, spike_time = crossing_time c\<rparr>])
      else Inl out_of_range)"

text \<open>\<open>mc_cell_group::advance(tfinal, dt)\<close>.\<close>

definition advance ::
  "('l, 'th, 'ph) lowered_cell \<Rightarrow> ('b \<Rightarrow> nat \<Rightarrow> real \<Rightarrow> real \<Rightarrow> real \<times> 'b)
     \<Rightarrow> ('sch \<Rightarrow> real \<Rightarrow> real \<Rightarrow> real list \<times> 'sch) \<Rightarrow> real \<Rightarrow> real
     \<Rightarrow> ('l, 'th, 'ph, 'sch, 'f, 'b) mc_cell_group
     \<Rightarrow> (engine_error + ('l, 'th, 'ph, 'sch, 'f, 'b) mc_cell_group) option" where
  "advance L bin sched_events tfinal dt g =
     (if \<not> state_synchronized L (lowered g) then Some (Inl assertion_failed)
      else
        let tstart = min_time L (lowered g);
            ev_min_time = max_time L (lowered g)
        in case deliver_events L bin tfinal ev_min_time g of
             Inl e \<Rightarrow> Some (Inl e)
           | Inr g1 \<Rightarrow>
               (let g2 = g1\<lparr>lowered := setup_integration L tfinal dt (lowered g1)\<rparr>
                in case setup_samplers sched_events (probe_map g2) tstart tfinal (sampler_map g2)
                          ([], [], sample_events g2) of
                     Inl e \<Rightarrow> Some (Inl e)
                   | Inr (assocs, samplers, q) \<Rightarrow>
                       (let g3 = g2\<lparr>sampler_map := assocs, sample_events := q\<rparr>;
                            first_sample_time = time_if_before sample_time tfinal q
                        in case integrate L samplers tfinal (g3, first_sample_time) of
                             None \<Rightarrow> None
                           | Some (Inl e) \<Rightarrow> Some (Inl e)
                           | Some (Inr g4) \<Rightarrow>
                               (case generate_spikes (spike_sources g4)
                                       (get_spikes L (lowered g4)) (spikes g4) of
                                  Inl e \<Rightarrow> Some (Inl e)
                                | Inr sp \<Rightarrow>
                                    Some (Inr (g4\<lparr>spikes := sp,
                                                  lowered := clear_spikes L (lowered g4)\<rparr>))))))"

subsection \<open>Notions used to state the properties of advance\<close>

text \<open>The call of \<open>add_event\<close> that a recorded delivery stands for.\<close>

definition apply_delivery ::
  "('l, 'th, 'ph) lowered_cell \<Rightarrow> 'l \<Rightarrow> 'th delivery \<Rightarrow> 'l" where
  "apply_delivery L l d = add_event L (dl_time d) (dl_handle d) (ev_weight (dl_event d)) l"

text \<open>The members that the first loop of \<open>advance\<close> leaves alone.\<close>

definition deliver_frame ::
  "('l, 'th, 'ph, 'sch, 'f, 'b) mc_cell_group \<Rightarrow> ('l, 'th, 'ph, 'sch, 'f, 'b) mc_cell_group \<Rightarrow> bool"
  where
  "deliver_frame g g1 =
     (spikes g1 = spikes g \<and> spike_sources g1 = spike_sources g
      \<and> gid_index_map g1 = gid_index_map g \<and> sample_events g1 = sample_events g
      \<and> sampler_calls g1 = sampler_calls g \<and> probe_map g1 = probe_map g
      \<and> sampler_map g1 = sampler_map g)"

text \<open>
  What the first loop does with the pending events: those at or after \<open>tfinal\<close> stay, the
  others are delivered, each by one call of \<open>add_event\<close> with a time computed by the binner
  from the floor \<open>ev_min_time\<close>.
\<close>

definition delivered ::
  "('l, 'th, 'ph) lowered_cell \<Rightarrow> ('b \<Rightarrow> nat \<Rightarrow> real \<Rightarrow> real \<Rightarrow> real \<times> 'b) \<Rightarrow> real \<Rightarrow> real
     \<Rightarrow> ('l, 'th, 'ph, 'sch, 'f, 'b) mc_cell_group \<Rightarrow> ('l, 'th, 'ph, 'sch, 'f, 'b) mc_cell_group
     \<Rightarrow> 'th delivery list \<Rightarrow> bool" where
  "delivered L bin tfinal ev_min_time g g1 new =
     (mset (events g1) = filter_mset (\<lambda>e. tfinal \<le> ev_time e) (mset (events g))
      \<and> added_events g1 = added_events g @ new
      \<and> mset (map dl_event new) = filter_mset (\<lambda>e. ev_time e < tfinal) (mset (events g))
      \<and> (\<forall>d\<in>set new. \<exists>b. dl_time d =
            fst (bin b (gid (ev_target (dl_event d))) (ev_time (dl_event d)) ev_min_time))
      \<and> lowered g1 = foldl (apply_delivery L) (lowered g) new)"

text \<open>The members that sampling and integration leave alone.\<close>

definition sample_frame ::
  "('l, 'th, 'ph, 'sch, 'f, 'b) mc_cell_group \<Rightarrow> ('l, 'th, 'ph, 'sch, 'f, 'b) mc_cell_group \<Rightarrow> bool"
  where
  "sample_frame g g1 =
     (events g1 = events g \<and> added_events g1 = added_events g \<and> spikes g1 = spikes g
      \<and> spike_sources g1 = spike_sources g \<and> gid_index_map g1 = gid_index_map g)"

text \<open>
  Every sampler call of the list was made with one record whose time is the time that the
  cell of the probe had reached in some state \<open>n\<close> integration steps after \<open>l\<close>, whose value
  was probed in the same state, and whose time is not before the time of the sample event.
\<close>

definition sampled_at ::
  "('l, 'th, 'ph) lowered_cell \<Rightarrow> (nat \<rightharpoonup> nat) \<Rightarrow> 'l \<Rightarrow> 'f sampler_call list \<Rightarrow> bool" where
  "sampled_at L gim l new =
     (\<forall>c\<in>set new. \<exists>n i h.
        gim (gid (call_probe_id c)) = Some i
        \<and> sr_time (call_record c) = cell_time L ((step_integration L ^^ n) l) i
        \<and> sr_value (call_record c) = probe L ((step_integration L ^^ n) l) h
        \<and> sample_time (call_event c) \<le> sr_time (call_record c)
        \<and> call_count c = 1)"

definition sampled ::
  "('l, 'th, 'ph) lowered_cell \<Rightarrow> ('l, 'th, 'ph, 'sch, 'f, 'b) mc_cell_group
     \<Rightarrow> ('l, 'th, 'ph, 'sch, 'f, 'b) mc_cell_group \<Rightarrow> bool" where
  "sampled L g g1 =
     (sample_frame g g1
      \<and> (\<exists>new. sampler_calls g1 = sampler_calls g @ new
                \<and> sampled_at L (gid_index_map g) (lowered g) new))"



text \<open>The spike generated for a threshold crossing.\<close>

definition spike_of :: "cell_member_type list \<Rightarrow> crossing \<Rightarrow> spike" where
  "spike_of sources c =
     \<lparr>spike_source = sources ! crossing_index c, spike_time = crossing_time c\<rparr>"

subsection \<open>A small integrator for the examples\<close>

record toy_cell =
  toy_time :: real
  toy_tfinal :: real
  toy_dt :: real
  toy_inbox :: "(real \<times> nat \<times> real) list"
  toy_crossings :: "crossing list"

definition toy_lowered :: "(toy_cell, nat, nat) lowered_cell" where
  "toy_lowered =
     \<lparr>state_synchronized = (\<lambda>l. True),
      min_time = toy_time,
      max_time = toy_time,
      cell_time = (\<lambda>l i. toy_time l),
      add_event = (\<lambda>t h w l. l\<lparr>toy_inbox := toy_inbox l @ [(t, h, w)]\<rparr>),
      setup_integration = (\<lambda>tfinal dt l. l\<lparr>toy_tfinal := tfinal, toy_dt := dt\<rparr>),
      integration_complete = (\<lambda>l. toy_tfinal l \<le> toy_time l),
      step_integration = (\<lambda>l. l\<lparr>toy_time := toy_time l + toy_dt l,
         toy_crossings := toy_crossings l @
           [\<lparr>crossing_index = 0, crossing_time = toy_time l + toy_dt l\<rparr>]\<rparr>),
      probe = (\<lambda>l h. 10 * toy_time l + real h),
      get_spikes = toy_crossings,
      clear_spikes = (\<lambda>l. l\<lparr>toy_crossings := []\<rparr>)\<rparr>"

text \<open>A binner without binning, and a schedule of explicit sample times.\<close>

definition toy_bin :: "unit \<Rightarrow> nat \<Rightarrow> real \<Rightarrow> real \<Rightarrow> real \<times> unit" where
  "toy_bin b i t t_min = (max t t_min, b)"

definition toy_sched_events :: "real list \<Rightarrow> real \<Rightarrow> real \<Rightarrow> real list \<times> real list" where
  "toy_sched_events s t0 t1 = (filter (\<lambda>t. t0 \<le> t \<and> t < t1) s, filter (\<lambda>t. t1 \<le> t) s)"

definition toy_group :: "(toy_cell, nat, nat, real list, nat, unit) mc_cell_group" where
  "toy_group =
     \<lparr>gids = [7],
      gid_index_map = [7 \<mapsto> 0],
      lowered = \<lparr>toy_time = 1, toy_tfinal = 1, toy_dt = 0, toy_inbox = [], toy_crossings = []\<rparr>,
      spike_sources = [\<lparr>gid = 7, index = 0\<rparr>],
      spikes = [],
      binner = (),
      events = [\<lparr>ev_target = \<lparr>gid = 7, index = 0\<rparr>, ev_time = 3, ev_weight = 1\<rparr>,
                \<lparr>ev_target = \<lparr>gid = 7, index = 1\<rparr>, ev_time = 2, ev_weight = 2\<rparr>,
                \<lparr>ev_target = \<lparr>gid = 7, index = 0\<rparr>, ev_time = 1 / 2, ev_weight = 3\<rparr>],
      sample_events = [],
      target_handles = [40, 41],
      probe_map = [\<lparr>gid = 7, index = 0\<rparr> \<mapsto> \<lparr>handle = 5, tag = 0\<rparr>],
      sampler_map = [\<lparr>sched = [3 / 2, 5 / 2, 7 / 2], sampler = Some 99,
                       probe_ids = [\<lparr>gid = 7, index = 0\<rparr>]\<rparr>],
      target_handle_divisions = [0, 2],
      added_events = [],
      sampler_calls = []\<rparr>"

text \<open>The group after \<open>advance(3, 1)\<close>, and after a second call \<open>advance(4, 1)\<close>.\<close>

definition advance_result ::
  "(engine_error + ('l, 'th, 'ph, 'sch, 'f, 'b) mc_cell_group) option
     \<Rightarrow> ('l, 'th, 'ph, 'sch, 'f, 'b) mc_cell_group
     \<Rightarrow> ('l, 'th, 'ph, 'sch, 'f, 'b) mc_cell_group" where
  "advance_result r d = (case r of Some (Inr g) \<Rightarrow> g | _ \<Rightarrow> d)"

definition returned :: "(engine_error + 'a) option \<Rightarrow> bool" where
  "returned r = (case r of Some (Inr g) \<Rightarrow> True | _ \<Rightarrow> False)"

definition toy_after :: "(toy_cell, nat, nat, real list, nat, unit) mc_cell_group" where
  "toy_after =
     advance_result (advance toy_lowered toy_bin toy_sched_events 3 1 toy_group) toy_group"

definition toy_after2 :: "(toy_cell, nat, nat, real list, nat, unit) mc_cell_group" where
  "toy_after2 =
     advance_result (advance toy_lowered toy_bin toy_sched_events 4 1 toy_after) toy_after"

section \<open>Properties of the normaliser\<close>

lemma count_root_simps [simp]:
  "ids (count_root s c) = ids s" "cells (count_root s c) = cells s"
  "needsort (count_root s c) = needsort s" "last_id (count_root s c) = last_id s"
  "num_trees (count_root s c) = (if cr_parent_id c = -1 then num_trees s + 1 else num_trees s)"
  by (simp_all add: count_root_def)

lemma insert_cell_simps [simp]:
  "ids (insert_cell s c) = insert (cr_id c) (ids s)" "cells (insert_cell s c) = cells s @ [c]"
  "needsort (insert_cell s c) = (needsort s \<or> cr_id c < last_id s)"
  "last_id (insert_cell s c) = cr_id c" "num_trees (insert_cell s c) = num_trees s"
  by (auto simp add: insert_cell_def)

lemma read_records_Cons:
  "read_records s (c # cs) =
     (if cr_parent_id c = -1 \<and> num_trees s \<ge> 1 then count_root s c
      else if cr_id c \<in> ids s then read_records (count_root s c) cs
      else read_records (insert_cell (count_root s c) c) cs)"
  by (auto simp: Let_def)

lemma length_filter_is_root_Cons:
  "length (filter is_root (c # cs)) =
     (if cr_parent_id c = -1 then 1 else 0) + length (filter is_root cs)"
  by simp

lemma read_records_increasing:
  "sorted_wrt (<) (map cr_id cs) \<Longrightarrow> \<forall>c\<in>set cs. last_id s \<le> cr_id c \<Longrightarrow>
   \<forall>c\<in>set cs. cr_id c \<notin> ids s \<Longrightarrow> num_trees s + length (filter is_root cs) \<le> 1 \<Longrightarrow>
   cells (read_records s cs) = cells s @ cs \<and> needsort (read_records s cs) = needsort s"
proof (induction cs arbitrary: s)
  case Nil
  then show ?case by simp
next
  case (Cons c cs)
  let ?s2 = "insert_cell (count_root s c) c"
  from Cons.prems(4) have nt: "\<not> (cr_parent_id c = -1 \<and> num_trees s \<ge> 1)"
    unfolding length_filter_is_root_Cons by auto
  from Cons.prems(3) have fresh: "cr_id c \<notin> ids s" by auto
  have step: "read_records s (c # cs) = read_records ?s2 cs"
    using nt fresh by (simp only: read_records_Cons if_False)
  have a: "sorted_wrt (<) (map cr_id cs)" using Cons.prems(1) by simp
  have b: "\<forall>d\<in>set cs. last_id ?s2 \<le> cr_id d" using Cons.prems(1) by auto
  have c: "\<forall>d\<in>set cs. cr_id d \<notin> ids ?s2" using Cons.prems(1,3) by auto
  have d: "num_trees ?s2 + length (filter is_root cs) \<le> 1"
    using Cons.prems(4) unfolding length_filter_is_root_Cons by auto
  have ns: "needsort ?s2 = needsort s" using Cons.prems(2) by auto
  have cl: "cells ?s2 = cells s @ [c]" by auto
  from Cons.IH[OF a b c d] show ?case
    unfolding step using ns cl by simp
qed

lemma renumber_cells_dense:
  "map cr_id cs = map int [k..<k + length cs] \<Longrightarrow> renumber_cells (int k) m cs = Inr cs"
proof (induction cs arbitrary: k)
  case Nil
  then show ?case by simp
next
  case (Cons c cs)
  have e: "[k..<k + length (c # cs)] = k # [Suc k..<Suc k + length cs]"
    by (simp del: upt_Suc add: upt_conv_Cons)
  have "map cr_id (c # cs) = map int (k # [Suc k..<Suc k + length cs])"
    using Cons.prems unfolding e .
  then have h: "cr_id c = int k" and t: "map cr_id cs = map int [Suc k..<Suc k + length cs]"
    by (simp_all del: upt_Suc)
  from Cons.IH[OF t] have "renumber_cells (int k + 1) m cs = Inr cs"
    by (simp add: add.commute)
  with h show ?case by simp
qed

lemma sorted_wrt_map_int_upt: "sorted_wrt (<) (map int [a..<b])"
  by (simp add: sorted_wrt_map sorted_wrt_iff_nth_less)

lemma sorted_wrt_less_last:
  fixes xs :: "int list"
  shows "sorted_wrt (<) xs \<Longrightarrow> xs \<noteq> [] \<Longrightarrow> x \<in> set xs \<Longrightarrow> x \<le> last xs"
proof (induction xs)
  case Nil
  then show ?case by simp
next
  case (Cons y ys)
  show ?case
  proof (cases "ys = []")
    case True
    then show ?thesis using Cons.prems by simp
  next
    case False
    then have "y < last ys" using Cons.prems(1) by simp
    moreover have "x \<in> set ys \<Longrightarrow> x \<le> last ys" using Cons False by simp
    ultimately show ?thesis using Cons.prems(3) False by auto
  qed
qed

lemma read_inv_count_root: "read_inv s \<Longrightarrow> read_inv (count_root s c)"
  by (simp add: read_inv_def)

lemma read_inv_insert:
  assumes "read_inv s" and "cr_id c \<notin> ids s"
  shows "read_inv (insert_cell s c)"
proof -
  have ids: "ids s = cr_id ` set (cells s)" and dist: "distinct (map cr_id (cells s))"
    and lst: "cells s \<noteq> [] \<longrightarrow> last_id s = cr_id (last (cells s))"
    and srt: "\<not> needsort s \<longrightarrow> sorted_wrt (<) (map cr_id (cells s))"
    using assms(1) by (simp_all add: read_inv_def)
  have fresh: "cr_id c \<notin> cr_id ` set (cells s)" using assms(2) ids by simp
  have "sorted_wrt (<) (map cr_id (cells s @ [c]))"
    if ns: "\<not> needsort s" and ge: "\<not> cr_id c < last_id s"
  proof -
    have s0: "sorted_wrt (<) (map cr_id (cells s))" using srt ns by simp
    have "x < cr_id c" if "x \<in> set (map cr_id (cells s))" for x
    proof -
      from that have ne: "cells s \<noteq> []" by auto
      then have "x \<le> last (map cr_id (cells s))"
        using sorted_wrt_less_last[OF s0 _ that] by simp
      also have "last (map cr_id (cells s)) = last_id s" using lst ne by (simp add: last_map)
      finally have "x \<le> cr_id c" using ge by simp
      moreover have "x \<noteq> cr_id c" using that fresh by force
      ultimately show ?thesis by simp
    qed
    then show ?thesis using s0 by (simp add: sorted_wrt_append)
  qed
  then show ?thesis
    using ids dist fresh by (auto simp: read_inv_def)
qed

lemma read_inv_read_records: "read_inv s \<Longrightarrow> read_inv (read_records s cs)"
proof (induction cs arbitrary: s)
  case Nil
  then show ?case by simp
next
  case (Cons c cs)
  have inv1: "read_inv (count_root s c)" by (rule read_inv_count_root[OF Cons.prems])
  have inv2: "cr_id c \<notin> ids s \<Longrightarrow> read_inv (insert_cell (count_root s c) c)"
    using read_inv_insert[OF inv1, of c] by simp
  show ?case
    unfolding read_records_Cons using inv1 inv2 Cons.IH by simp
qed

lemma read_records_subset: "set (cells (read_records s cs)) \<subseteq> set (cells s) \<union> set cs"
proof (induction cs arbitrary: s)
  case Nil
  then show ?case by simp
next
  case (Cons c cs)
  have a: "set (cells (read_records (count_root s c) cs)) \<subseteq> set (cells s) \<union> set (c # cs)"
    using Cons.IH[of "count_root s c"] by auto
  have b: "set (cells (read_records (insert_cell (count_root s c) c) cs))
             \<subseteq> set (cells s) \<union> set (c # cs)"
    using Cons.IH[of "insert_cell (count_root s c) c"] by auto
  show ?case
    unfolding read_records_Cons using a b by auto
qed

lemma read_inv_init: "read_inv init_read_state"
  by (simp add: read_inv_def init_read_state_def)

lemma sorted_retained_props:
  "sorted_wrt (<) (map cr_id (sorted_retained input))
   \<and> set (sorted_retained input) = set (retained input)
   \<and> length (sorted_retained input) = length (retained input)"
proof -
  let ?s = "read_records init_read_state input"
  have inv: "read_inv ?s" by (rule read_inv_read_records[OF read_inv_init])
  show ?thesis
  proof (cases "needsort ?s")
    case True
    have "distinct (map cr_id (cells ?s))" using inv by (simp add: read_inv_def)
    then have "distinct (map cr_id (sort_key cr_id (cells ?s)))"
      by (metis mset_map mset_sort mset_eq_imp_distinct_iff)
    moreover have "sorted (map cr_id (sort_key cr_id (cells ?s)))" by (rule sorted_sort_key)
    ultimately have "sorted_wrt (<) (map cr_id (sort_key cr_id (cells ?s)))"
      by (simp add: strict_sorted_iff)
    then show ?thesis using True by (simp add: sorted_retained_def retained_def sort_cells_def)
  next
    case False
    then show ?thesis using inv
      by (simp add: sorted_retained_def retained_def sort_cells_def read_inv_def)
  qed
qed

lemma check_consistency_okD:
  assumes "check_consistency c = Inr ()"
  shows "0 \<le> cr_type c" "cr_type c \<le> custom" "0 \<le> cr_id c" "-1 \<le> cr_parent_id c"
    "cr_parent_id c < cr_id c" "0 \<le> cr_r c"
  using assms by (auto simp: check_consistency_def split: if_splits)

lemma check_consistency_okI:
  "0 \<le> cr_type c \<Longrightarrow> cr_type c \<le> custom \<Longrightarrow> 0 \<le> cr_id c \<Longrightarrow> -1 \<le> cr_parent_id c \<Longrightarrow>
   cr_parent_id c < cr_id c \<Longrightarrow> 0 \<le> cr_r c \<Longrightarrow> check_consistency c = Inr ()"
  by (auto simp: check_consistency_def)

lemma renumber_ok:
  assumes "check_consistency c = Inr ()" and "0 \<le> k" and "-1 \<le> new_id m (cr_parent_id c)"
    and "new_id m (cr_parent_id c) < k" and "cr_id c \<notin> dom m"
  shows "renumber c k m =
           Inr (c\<lparr>cr_id := k, cr_parent_id := new_id m (cr_parent_id c)\<rparr>, m(cr_id c \<mapsto> k))"
proof -
  let ?c2 = "c\<lparr>cr_id := k, cr_parent_id := new_id m (cr_parent_id c)\<rparr>"
  have c2: "(case m (cr_parent_id (c\<lparr>cr_id := k\<rparr>)) of
               Some new_parent_id \<Rightarrow> c\<lparr>cr_id := k\<rparr>\<lparr>cr_parent_id := new_parent_id\<rparr>
             | None \<Rightarrow> c\<lparr>cr_id := k\<rparr>) = ?c2"
    by (simp add: new_id_def split: option.splits)
  have ok: "check_consistency ?c2 = Inr ()"
    using check_consistency_okD[OF assms(1)] assms(2,3,4)
    by (intro check_consistency_okI) simp_all
  have ins: "map_insert m (cr_id c) k = m(cr_id c \<mapsto> k)"
    using assms(5) by (auto simp: map_insert_def split: option.splits)
  show ?thesis
    unfolding renumber_def Let_def c2 using ok ins by simp
qed

lemma renumber_cells_correct:
  assumes "sorted_wrt (<) (map cr_id (pre @ cs))"
    and "\<forall>c\<in>set (pre @ cs). check_consistency c = Inr ()"
    and "\<forall>c\<in>set cs. cr_parent_id c = -1 \<or> cr_parent_id c \<in> cr_id ` set (pre @ cs)"
    and "\<forall>j<length pre. new_id m (cr_id (pre ! j)) = int j"
    and "dom m \<subseteq> cr_id ` set pre"
    and "m = Map.empty \<or> (\<forall>c\<in>set cs. int (length pre) < cr_id c)"
    and "\<forall>c\<in>set cs. int (length pre) \<le> cr_id c"
  shows "\<exists>out. renumber_cells (int (length pre)) m cs = Inr out \<and> length out = length cs \<and>
      (\<forall>i<length cs. \<exists>p. out ! i = (cs ! i)\<lparr>cr_id := int (length pre + i), cr_parent_id := p\<rparr> \<and>
           (cr_parent_id (cs ! i) = -1 \<longrightarrow> p = -1) \<and>
           (cr_parent_id (cs ! i) \<noteq> -1 \<longrightarrow>
              (\<exists>j<length pre + i. cr_id ((pre @ cs) ! j) = cr_parent_id (cs ! i) \<and> p = int j)))"
  using assms
proof (induction cs arbitrary: pre m)
  case Nil
  then show ?case by simp
next
  case (Cons c cs)
  let ?k = "length pre"
  have ok_c: "check_consistency c = Inr ()" using Cons.prems(2) by simp
  note okc = check_consistency_okD[OF ok_c]
  have pre_lt: "\<forall>d\<in>set pre. cr_id d < cr_id c"
    using Cons.prems(1) by (auto simp: sorted_wrt_append)
  have tl_gt: "\<forall>d\<in>set cs. cr_id c < cr_id d"
    using Cons.prems(1) by (auto simp: sorted_wrt_append)
  have pre_nonneg: "\<forall>d\<in>set pre. 0 \<le> cr_id d"
    using Cons.prems(2) check_consistency_okD(3) by auto
  have notdom: "cr_id c \<notin> dom m"
    using Cons.prems(5) pre_lt by force
  have root_notdom: "-1 \<notin> dom m"
    using Cons.prems(5) pre_nonneg by force
  define p where "p = new_id m (cr_parent_id c)"
  have p_root: "p = -1" if "cr_parent_id c = -1"
    using that root_notdom by (auto simp: p_def new_id_def split: option.splits)
  have p_par: "\<exists>j<?k. cr_id (pre ! j) = cr_parent_id c \<and> p = int j" if np: "cr_parent_id c \<noteq> -1"
  proof -
    from Cons.prems(3) np have "cr_parent_id c \<in> cr_id ` set (pre @ c # cs)" by simp
    then obtain d where d: "d \<in> set (pre @ c # cs)" "cr_id d = cr_parent_id c"
      unfolding image_iff by metis
    have "d \<in> set pre"
    proof (rule ccontr)
      assume "d \<notin> set pre"
      then have "d = c \<or> d \<in> set cs" using d(1) by auto
      then have "cr_id c \<le> cr_id d" using tl_gt by auto
      then show False using d(2) okc(5) by simp
    qed
    then obtain j where j: "j < ?k" "pre ! j = d" by (auto simp: in_set_conv_nth)
    have "new_id m (cr_id (pre ! j)) = int j" using Cons.prems(4) j(1) by blast
    then have "new_id m (cr_parent_id c) = int j" using j(2) d(2) by simp
    moreover have "cr_id (pre ! j) = cr_parent_id c" using j(2) d(2) by simp
    ultimately show ?thesis using j(1) unfolding p_def by blast
  qed
  have p_bounds: "-1 \<le> p" "p < int ?k"
    using p_root p_par by (cases "cr_parent_id c = -1"; fastforce)+
  define c' where "c' = c\<lparr>cr_id := int ?k, cr_parent_id := p\<rparr>"
  define m' where "m' = (if cr_id c \<noteq> int ?k then m(cr_id c \<mapsto> int ?k) else m)"
  have step: "renumber_cells (int ?k) m (c # cs) =
      (case renumber_cells (int ?k + 1) m' cs of Inl e \<Rightarrow> Inl e | Inr out \<Rightarrow> Inr (c' # out))"
  proof (cases "cr_id c \<noteq> int ?k")
    case True
    have "renumber c (int ?k) m = Inr (c', m')"
      using renumber_ok[OF ok_c _ _ _ notdom, of "int ?k"] p_bounds True
      by (simp add: p_def c'_def m'_def)
    then show ?thesis using True by simp
  next
    case False
    then have "m = Map.empty" using Cons.prems(6) by auto
    then have "p = cr_parent_id c" by (simp add: p_def new_id_def)
    then have cc: "c' = c" using False by (simp add: c'_def)
    show ?thesis unfolding cc using False by (simp add: m'_def)
  qed
  have new_c: "new_id m' (cr_id c) = int ?k"
    using notdom by (cases "cr_id c \<noteq> int ?k") (auto simp: m'_def new_id_def split: option.splits)
  have new_pre: "new_id m' (cr_id d) = new_id m (cr_id d)" if "d \<in> set pre" for d
    using pre_lt that by (auto simp: m'_def new_id_def)
  have ih1: "sorted_wrt (<) (map cr_id ((pre @ [c]) @ cs))" using Cons.prems(1) by simp
  have ih2: "\<forall>d\<in>set ((pre @ [c]) @ cs). check_consistency d = Inr ()"
    using Cons.prems(2) by simp
  have ih3: "\<forall>d\<in>set cs. cr_parent_id d = -1 \<or> cr_parent_id d \<in> cr_id ` set ((pre @ [c]) @ cs)"
    using Cons.prems(3) by simp
  have ih4: "\<forall>j<length (pre @ [c]). new_id m' (cr_id ((pre @ [c]) ! j)) = int j"
  proof (intro allI impI)
    fix j assume "j < length (pre @ [c])"
    then consider "j < ?k" | "j = ?k" by fastforce
    then show "new_id m' (cr_id ((pre @ [c]) ! j)) = int j"
    proof cases
      case 1
      then show ?thesis using new_pre[of "pre ! j"] Cons.prems(4) by (simp add: nth_append)
    next
      case 2
      then show ?thesis using new_c by (simp add: nth_append)
    qed
  qed
  have ih5: "dom m' \<subseteq> cr_id ` set (pre @ [c])"
    using Cons.prems(5) by (auto simp: m'_def split: if_splits)
  have ih7: "\<forall>d\<in>set cs. int (length (pre @ [c])) \<le> cr_id d"
    using tl_gt Cons.prems(7) by fastforce
  have ih6: "m' = Map.empty \<or> (\<forall>d\<in>set cs. int (length (pre @ [c])) < cr_id d)"
  proof (cases "cr_id c \<noteq> int ?k")
    case True
    then have "int ?k < cr_id c" using Cons.prems(7) by fastforce
    then have "\<forall>d\<in>set cs. int (length (pre @ [c])) < cr_id d" using tl_gt by fastforce
    then show ?thesis ..
  next
    case False
    then have "m = Map.empty" using Cons.prems(6) by auto
    then show ?thesis using False by (simp add: m'_def)
  qed
  from Cons.IH[OF ih1 ih2 ih3 ih4 ih5 ih6 ih7]
  obtain out where out: "renumber_cells (int (length (pre @ [c]))) m' cs = Inr out"
    "length out = length cs"
    "\<forall>i<length cs. \<exists>q. out ! i = (cs ! i)\<lparr>cr_id := int (length (pre @ [c]) + i), cr_parent_id := q\<rparr> \<and>
           (cr_parent_id (cs ! i) = -1 \<longrightarrow> q = -1) \<and>
           (cr_parent_id (cs ! i) \<noteq> -1 \<longrightarrow>
              (\<exists>j<length (pre @ [c]) + i.
                  cr_id (((pre @ [c]) @ cs) ! j) = cr_parent_id (cs ! i) \<and> q = int j))"
    by blast
  have res: "renumber_cells (int ?k) m (c # cs) = Inr (c' # out)"
    unfolding step using out(1) by (simp add: add.commute)
  have "\<exists>q. (c' # out) ! i = ((c # cs) ! i)\<lparr>cr_id := int (?k + i), cr_parent_id := q\<rparr> \<and>
           (cr_parent_id ((c # cs) ! i) = -1 \<longrightarrow> q = -1) \<and>
           (cr_parent_id ((c # cs) ! i) \<noteq> -1 \<longrightarrow>
              (\<exists>j<?k + i. cr_id ((pre @ c # cs) ! j) = cr_parent_id ((c # cs) ! i) \<and> q = int j))"
    if "i < length (c # cs)" for i
  proof (cases i)
    case 0
    have "\<exists>j<?k. cr_id ((pre @ c # cs) ! j) = cr_parent_id c \<and> p = int j"
      if "cr_parent_id c \<noteq> -1"
      using p_par[OF that] by (auto simp: nth_append)
    then show ?thesis using 0 p_root by (auto simp: c'_def)
  next
    case (Suc i')
    then have "i' < length cs" using that by simp
    with out(3) obtain q where q:
      "out ! i' = (cs ! i')\<lparr>cr_id := int (length (pre @ [c]) + i'), cr_parent_id := q\<rparr>"
      "cr_parent_id (cs ! i') = -1 \<longrightarrow> q = -1"
      "cr_parent_id (cs ! i') \<noteq> -1 \<longrightarrow>
              (\<exists>j<length (pre @ [c]) + i'.
                  cr_id (((pre @ [c]) @ cs) ! j) = cr_parent_id (cs ! i') \<and> q = int j)"
      by blast
    show ?thesis
      using q Suc by (intro exI[of _ q]) simp
  qed
  then show ?case using res out(2) by simp
qed

lemma read_records_cells:
  "cells (read_records s cs) =
     cells s @ first_by_id (ids s) (before_second_root (num_trees s) cs)"
proof (induction cs arbitrary: s)
  case Nil
  then show ?case by simp
next
  case (Cons c cs)
  show ?case
    unfolding read_records_Cons
    by (simp add: Cons.IH)
qed

lemma before_second_root_at:
  "k < length cs \<Longrightarrow> is_root (cs ! k) \<Longrightarrow> n + length (filter is_root (take k cs)) = 1 \<Longrightarrow>
   before_second_root n cs = take k cs"
proof (induction cs arbitrary: n k)
  case Nil
  then show ?case by simp
next
  case (Cons c cs)
  show ?case
  proof (cases k)
    case 0
    then show ?thesis using Cons.prems by simp
  next
    case (Suc k')
    show ?thesis
    proof (cases "is_root c")
      case True
      then have n0: "n = 0" and r: "Suc 0 + length (filter is_root (take k' cs)) = 1"
        using Cons.prems(3) Suc by simp_all
      have "before_second_root (Suc 0) cs = take k' cs"
        using Cons.IH[of k' "Suc 0"] Cons.prems(1,2) Suc r by simp
      then show ?thesis using True n0 Suc by simp
    next
      case False
      then have r: "n + length (filter is_root (take k' cs)) = 1"
        using Cons.prems(3) Suc by simp
      have "before_second_root n cs = take k' cs"
        using Cons.IH[of k' n] Cons.prems(1,2) Suc r by simp
      then show ?thesis using False Suc by simp
    qed
  qed
qed

section \<open>Record validation\<close>

text \<open>
  Claim C6: \<open>check_consistency\<close> raises an invalid-structure error exactly when the type
  code is outside the enumeration range, or the id is negative, or the parent id is less
  than -1, or the parent id is at least the own id, or the radius is negative; for every
  other record it returns without error.
\<close>

theorem check_consistency_iff:
  "(\<exists>msg. check_consistency c = Inl (invalid_argument msg)) =
     (cr_type c < 0 \<or> cr_type c > custom \<or> cr_id c < 0 \<or> cr_parent_id c < -1
       \<or> cr_parent_id c \<ge> cr_id c \<or> cr_r c < 0)
   \<and> ((\<not> (cr_type c < 0 \<or> cr_type c > custom \<or> cr_id c < 0 \<or> cr_parent_id c < -1
       \<or> cr_parent_id c \<ge> cr_id c \<or> cr_r c < 0)) = (check_consistency c = Inr ()))"
  by (simp add: check_consistency_def)

section \<open>Normalising a canonical sequence\<close>

text \<open>
  Claim C7: record normalisation is idempotent. For every canonical sequence (dense
  zero-based ids, every parent preceding its children, a single tree, no duplicate ids) the
  constructor returns the input sequence itself.
\<close>

theorem normalize_canonical_identity:
  assumes "canonical cs"
  shows "cell_record_range_clean cs = Inr cs"
proof -
  from assms have idseq: "map cr_id cs = map int [0..<length cs]"
    and roots: "length (filter is_root cs) \<le> 1"
    by (simp_all add: canonical_def)
  have srt: "sorted_wrt (<) (map cr_id cs)"
    unfolding idseq by (rule sorted_wrt_map_int_upt)
  have nonneg: "\<forall>c\<in>set cs. last_id init_read_state \<le> cr_id c"
  proof
    fix c assume "c \<in> set cs"
    then have "cr_id c \<in> set (map cr_id cs)" by simp
    then show "last_id init_read_state \<le> cr_id c"
      unfolding idseq by (auto simp: init_read_state_def)
  qed
  have rd: "cells (read_records init_read_state cs) = cs
            \<and> needsort (read_records init_read_state cs) = False"
    using read_records_increasing[OF srt nonneg] roots
    by (simp add: init_read_state_def)
  then have "sort_cells (read_records init_read_state cs) = cs"
    by (simp add: sort_cells_def)
  moreover have "renumber_cells 0 Map.empty cs = Inr cs"
    using renumber_cells_dense[of cs 0 Map.empty] idseq by simp
  ultimately show ?thesis by (simp add: cell_record_range_clean_def)
qed

theorem normalize_canonical_identity_witness:
  "canonical [ex_rec 0 (-1), ex_rec 1 0, ex_rec 2 0, ex_rec 3 2] \<and>
   cell_record_range_clean [ex_rec 0 (-1), ex_rec 1 0, ex_rec 2 0, ex_rec 3 2]
     = Inr [ex_rec 0 (-1), ex_rec 1 0, ex_rec 2 0, ex_rec 3 2]"
proof -
  have c: "canonical [ex_rec 0 (-1), ex_rec 1 0, ex_rec 2 0, ex_rec 3 2]" by code_simp
  show ?thesis using c normalize_canonical_identity[OF c] by simp
qed

section \<open>Renumbering\<close>

lemma before_second_root_all:
  "n + length (filter is_root cs) \<le> 1 \<Longrightarrow> before_second_root n cs = cs"
proof (induction cs arbitrary: n)
  case Nil
  then show ?case by simp
next
  case (Cons c cs)
  show ?case
  proof (cases "is_root c")
    case True
    then have "n = 0" and "Suc 0 + length (filter is_root cs) \<le> 1"
      using Cons.prems by simp_all
    then show ?thesis using True Cons.IH[of "Suc 0"] by simp
  next
    case False
    then have "n + length (filter is_root cs) \<le> 1" using Cons.prems by simp
    then show ?thesis using False Cons.IH[of n] by simp
  qed
qed

lemma retained_take:
  assumes "second_root_at input k"
  shows "retained input = first_by_id {} (take k input)"
proof -
  have "before_second_root 0 input = take k input"
  proof (cases "k < length input")
    case True
    then show ?thesis
      using assms before_second_root_at[of k input 0] by (simp add: second_root_at_def)
  next
    case False
    then have k: "k = length input" using assms by (simp add: second_root_at_def)
    then have "0 + length (filter is_root input) \<le> 1"
      using assms by (simp add: second_root_at_def)
    from before_second_root_all[OF this] show ?thesis using k by simp
  qed
  then show ?thesis
    using read_records_cells[of init_read_state input]
    by (simp add: retained_def init_read_state_def)
qed

lemma first_by_id_subset: "set (first_by_id seen xs) \<subseteq> set xs"
  by (induction xs arbitrary: seen) auto

lemma first_by_id_ids: "cr_id ` set (first_by_id seen xs) = cr_id ` set xs - seen"
  by (induction xs arbitrary: seen) auto

lemma renumber_retained:
  assumes "\<forall>c\<in>set input. check_consistency c = Inr ()"
    and "\<forall>c\<in>set (retained input).
           cr_parent_id c = -1 \<or> cr_parent_id c \<in> cr_id ` set (retained input)"
  shows "\<exists>out. cell_record_range_clean input = Inr out
      \<and> length out = length (sorted_retained input)
      \<and> map cr_id out = map int [0..<length out]
      \<and> (\<forall>i<length out. \<exists>p.
            out ! i = (sorted_retained input ! i)\<lparr>cr_id := int i, cr_parent_id := p\<rparr>
            \<and> (cr_parent_id (sorted_retained input ! i) = -1 \<longrightarrow> p = -1)
            \<and> (cr_parent_id (sorted_retained input ! i) \<noteq> -1 \<longrightarrow>
                 (\<exists>j<i. cr_id (sorted_retained input ! j) = cr_parent_id (sorted_retained input ! i)
                        \<and> p = cr_id (out ! j))))"
proof -
  let ?pre = "sorted_retained input"
  note props = sorted_retained_props[of input]
  have sub: "set ?pre \<subseteq> set input"
    using props read_records_subset[of init_read_state input]
    by (simp add: retained_def init_read_state_def)
  have a1: "sorted_wrt (<) (map cr_id ([] @ ?pre))" using props by simp
  have a2: "\<forall>c\<in>set ([] @ ?pre). check_consistency c = Inr ()"
    using assms(1) sub by auto
  have a3: "\<forall>c\<in>set ?pre. cr_parent_id c = -1 \<or> cr_parent_id c \<in> cr_id ` set ([] @ ?pre)"
    using assms(2) props by simp
  have a4: "\<forall>j<length ([]::cell_record list). new_id Map.empty (cr_id ([] ! j)) = int j" by simp
  have a5: "dom (Map.empty :: int \<rightharpoonup> int) \<subseteq> cr_id ` set []" by simp
  have a6: "(Map.empty :: int \<rightharpoonup> int) = Map.empty
            \<or> (\<forall>c\<in>set ?pre. int (length ([]::cell_record list)) < cr_id c)" by simp
  have a7: "\<forall>c\<in>set ?pre. int (length ([]::cell_record list)) \<le> cr_id c"
    using a2 check_consistency_okD(3) by auto
  from renumber_cells_correct[OF a1 a2 a3 a4 a5 a6 a7]
  obtain out where out: "renumber_cells 0 Map.empty ?pre = Inr out" "length out = length ?pre"
    "\<forall>i<length ?pre. \<exists>p. out ! i = (?pre ! i)\<lparr>cr_id := int i, cr_parent_id := p\<rparr> \<and>
           (cr_parent_id (?pre ! i) = -1 \<longrightarrow> p = -1) \<and>
           (cr_parent_id (?pre ! i) \<noteq> -1 \<longrightarrow>
              (\<exists>j<i. cr_id (?pre ! j) = cr_parent_id (?pre ! i) \<and> p = int j))"
    by auto
  have ids: "cr_id (out ! i) = int i" if "i < length out" for i
    using out(2,3) that by fastforce
  have idseq: "map cr_id out = map int [0..<length out]"
    by (rule nth_equalityI) (simp_all add: ids)
  have par: "\<exists>p. out ! i = (?pre ! i)\<lparr>cr_id := int i, cr_parent_id := p\<rparr>
            \<and> (cr_parent_id (?pre ! i) = -1 \<longrightarrow> p = -1)
            \<and> (cr_parent_id (?pre ! i) \<noteq> -1 \<longrightarrow>
                 (\<exists>j<i. cr_id (?pre ! j) = cr_parent_id (?pre ! i) \<and> p = cr_id (out ! j)))"
    if i: "i < length out" for i
  proof -
    from out(3) i out(2) obtain p where p:
      "out ! i = (?pre ! i)\<lparr>cr_id := int i, cr_parent_id := p\<rparr>"
      "cr_parent_id (?pre ! i) = -1 \<longrightarrow> p = -1"
      "cr_parent_id (?pre ! i) \<noteq> -1 \<longrightarrow>
              (\<exists>j<i. cr_id (?pre ! j) = cr_parent_id (?pre ! i) \<and> p = int j)"
      by metis
    have "\<exists>j<i. cr_id (?pre ! j) = cr_parent_id (?pre ! i) \<and> p = cr_id (out ! j)"
      if "cr_parent_id (?pre ! i) \<noteq> -1"
    proof -
      from p(3) that obtain j where j: "j < i" "cr_id (?pre ! j) = cr_parent_id (?pre ! i)" "p = int j"
        by blast
      then have "cr_id (out ! j) = int j" using ids[of j] i by simp
      then show ?thesis using j by auto
    qed
    then show ?thesis using p(1,2) by blast
  qed
  have "cell_record_range_clean input = Inr out"
    using out(1) by (simp add: cell_record_range_clean_def sorted_retained_def)
  then show ?thesis using out(2) idseq par by blast
qed


text \<open>
  Claim C5 (as stated): for every valid input, the parent of every record that is not a
  root becomes the new id of its original parent. This fails on well-formed inputs in
  which a record of the first tree follows the second root: the first loop drops it, and
  a reference to it is not found in the renumbering map. In \<open>interleaved_input\<close> the
  record with id 3 and parent 1 is emitted with id 2 and parent 1, which is now the id of
  the former record 2; on \<open>interleaved_input2\<close> the constructor throws.
\<close>

theorem renumbering_counterexample:
  "well_formed_input interleaved_input
   \<and> sorted_retained interleaved_input = [ex_rec 0 (-1), ex_rec 2 0, ex_rec 3 1]
   \<and> cell_record_range_clean interleaved_input = Inr [ex_rec 0 (-1), ex_rec 1 0, ex_rec 2 1]
   \<and> \<not> renumbered_consistently (sorted_retained interleaved_input)
         [ex_rec 0 (-1), ex_rec 1 0, ex_rec 2 1]
   \<and> well_formed_input interleaved_input2
   \<and> cell_record_range_clean interleaved_input2
       = Inl (invalid_argument ''parent_id >= id is not allowed'')"
  by code_simp

text \<open>
  Claim C5 (amended): for every input whose records have passed \<open>check_consistency\<close> and in
  which every parent reference of a record in front of the second root record (of any
  record, when there is at most one root record) points to a record in front of it,
  normalisation succeeds and emits records whose ids are 0, 1, ..., n-1 in the final
  order. Record \<open>i\<close> of the output is record \<open>i\<close> of the sorted collected records with its
  id replaced by \<open>i\<close>; a root keeps the parent -1, and the parent of any other record
  becomes the new id of the record that carries its original parent id, which stands at a
  position \<open>j < i\<close>: the parent is renumbered strictly before the record itself.
\<close>

theorem normalize_renumbers:
  assumes "valid_input input k"
  shows "\<exists>out. cell_record_range_clean input = Inr out
      \<and> length out = length (sorted_retained input)
      \<and> map cr_id out = map int [0..<length out]
      \<and> (\<forall>i<length out. \<exists>p.
            out ! i = (sorted_retained input ! i)\<lparr>cr_id := int i, cr_parent_id := p\<rparr>
            \<and> (cr_parent_id (sorted_retained input ! i) = -1 \<longrightarrow> p = -1)
            \<and> (cr_parent_id (sorted_retained input ! i) \<noteq> -1 \<longrightarrow>
                 (\<exists>j<i. cr_id (sorted_retained input ! j) = cr_parent_id (sorted_retained input ! i)
                        \<and> p = cr_id (out ! j))))"
proof -
  have cons: "\<forall>c\<in>set input. check_consistency c = Inr ()"
    and pos: "second_root_at input k"
    and clo: "\<forall>c\<in>set (take k input).
                is_root c \<or> cr_parent_id c \<in> cr_id ` set (take k input)"
    using assms by (simp_all add: valid_input_def)
  have ret: "retained input = first_by_id {} (take k input)" by (rule retained_take[OF pos])
  have ids: "cr_id ` set (retained input) = cr_id ` set (take k input)"
    unfolding ret by (simp add: first_by_id_ids)
  have "\<forall>c\<in>set (retained input).
           cr_parent_id c = -1 \<or> cr_parent_id c \<in> cr_id ` set (retained input)"
  proof
    fix c assume "c \<in> set (retained input)"
    then have "c \<in> set (take k input)" unfolding ret using first_by_id_subset by blast
    then show "cr_parent_id c = -1 \<or> cr_parent_id c \<in> cr_id ` set (retained input)"
      using clo unfolding ids by blast
  qed
  with cons show ?thesis by (rule renumber_retained)
qed

theorem normalize_renumbers_witness:
  "valid_input scrambled_input 5
   \<and> sorted_retained scrambled_input = [ex_rec 1 (-1), ex_rec 3 1, ex_rec 4 1, ex_rec 7 3]
   \<and> cell_record_range_clean scrambled_input
       = Inr [ex_rec 0 (-1), ex_rec 1 0, ex_rec 2 0, ex_rec 3 1]"
proof -
  have v: "valid_input scrambled_input 5" by code_simp
  have s: "sorted_retained scrambled_input = [ex_rec 1 (-1), ex_rec 3 1, ex_rec 4 1, ex_rec 7 3]"
    by code_simp
  from normalize_renumbers[OF v] obtain out where
    out: "cell_record_range_clean scrambled_input = Inr out" by blast
  have "cell_record_range_clean scrambled_input
          = Inr [ex_rec 0 (-1), ex_rec 1 0, ex_rec 2 0, ex_rec 3 1]"
    by code_simp
  then show ?thesis using v s out by simp
qed

section \<open>Inputs with more than one tree\<close>

text \<open>
  Claim C1 (as stated): when the input holds more than one root record, normalisation
  keeps every record of the first tree and drops exactly the records of the tree of the
  second root. This fails: the loop stops at the second root record, so a record of the
  first tree that follows it is lost. In \<open>two_trees_input\<close> the record with id 2 has the
  first root (id 0) as its parent and is not collected.
\<close>

theorem multi_tree_counterexample:
  "length (filter is_root two_trees_input) = 2
   \<and> tree_root two_trees_input (ex_rec 2 0) = Some 0
   \<and> ex_rec 2 0 \<in> set two_trees_input
   \<and> ex_rec 2 0 \<notin> set (retained two_trees_input)
   \<and> cell_record_range_clean two_trees_input = Inr [ex_rec 0 (-1), ex_rec 1 0]
   \<and> \<not> drops_second_tree_only two_trees_input"
  by code_simp

text \<open>
  Claim C1 (amended): when the record at position \<open>k\<close> is the second root record of the
  input, normalisation collects exactly the first record of every id among the \<open>k\<close>
  records in front of it; the second root record and every record after it are dropped,
  whichever tree they belong to.
\<close>

theorem retained_up_to_second_root:
  assumes "k < length input" and "is_root (input ! k)"
    and "length (filter is_root (take k input)) = 1"
  shows "retained input = first_by_id {} (take k input)"
proof -
  have "before_second_root 0 input = take k input"
    using before_second_root_at[of k input 0] assms by simp
  then show ?thesis
    using read_records_cells[of init_read_state input]
    by (simp add: retained_def init_read_state_def)
qed

theorem retained_up_to_second_root_witness:
  "3 < length two_trees_input \<and> is_root (two_trees_input ! 3)
   \<and> length (filter is_root (take 3 two_trees_input)) = 1
   \<and> retained two_trees_input = first_by_id {} (take 3 two_trees_input)
   \<and> retained two_trees_input = [ex_rec 0 (-1), ex_rec 1 0]"
proof -
  have a: "3 < length two_trees_input" by code_simp
  have b: "is_root (two_trees_input ! 3)" by code_simp
  have c: "length (filter is_root (take 3 two_trees_input)) = 1" by code_simp
  have d: "retained two_trees_input = [ex_rec 0 (-1), ex_rec 1 0]" by code_simp
  show ?thesis using a b c d retained_up_to_second_root[OF a b c] by simp
qed

section \<open>Properties of the record parser\<close>

lemma starts_with_prefix: "starts_with str pre = prefix pre str"
  by (cases str) (auto simp: starts_with_def)

lemma lines_of_nonempty: "lines_of s \<noteq> []"
  by (induction s) (auto split: list.splits)

lemma lines_of_no_newline: "newline \<notin> set s \<Longrightarrow> lines_of s = [s]"
  by (induction s) auto

lemma lines_of_split:
  "dropWhile (\<lambda>c. c \<noteq> newline) s = x # rest \<Longrightarrow>
   lines_of s = takeWhile (\<lambda>c. c \<noteq> newline) s # lines_of rest"
proof (induction s)
  case Nil
  then show ?case by simp
next
  case (Cons c s)
  show ?case
  proof (cases "c = newline")
    case True
    then show ?thesis using Cons.prems by simp
  next
    case False
    then have "lines_of s = takeWhile (\<lambda>c. c \<noteq> newline) s # lines_of rest"
      using Cons by simp
    then show ?thesis using False by simp
  qed
qed

lemma dropWhile_shorter: "dropWhile P s = x # rest \<Longrightarrow> length rest < length s"
  by (metis length_dropWhile_le length_Cons Suc_le_lessD)

lemma skip_lines_blank:
  "good strm \<Longrightarrow> \<forall>l\<in>set (lines_of (content strm)). blank_or_comment p l \<Longrightarrow>
   skip_lines (p, strm) =
     Some (p\<lparr>linebuff := last (lines_of (content strm)),
             lineno := lineno p + length (lines_of (content strm))\<rparr>,
           strm\<lparr>content := [], eofbit := True,
                failbit := (last (lines_of (content strm)) = [])\<rparr>)"
proof (induction "length (content strm)" arbitrary: p strm rule: less_induct)
  case less
  let ?line = "takeWhile (\<lambda>c. c \<noteq> newline) (content strm)"
  let ?rest = "dropWhile (\<lambda>c. c \<noteq> newline) (content strm)"
  have g: "\<not> eofbit strm" "\<not> failbit strm" "\<not> badbit strm"
    using less.prems(1) by (simp_all add: good_def)
  show ?case
  proof (cases ?rest)
    case Nil
    then have nonl: "newline \<notin> set (content strm)"
      by (metis (mono_tags, lifting) dropWhile_eq_Nil_conv)
    then have lo: "lines_of (content strm) = [content strm]" by (rule lines_of_no_newline)
    have tw: "?line = content strm" using Nil by (metis takeWhile_dropWhile_id append_Nil2)
    have gl: "getline strm (linebuff p) =
       (strm\<lparr>content := [], eofbit := True, failbit := (content strm = [])\<rparr>, content strm)"
      unfolding getline_def Let_def Nil tw using less.prems(1) by simp
    have bl: "content strm = [] \<or> starts_with (content strm) (comment_prefix p)"
      using less.prems(2) lo by (simp add: blank_or_comment_def starts_with_prefix)
    let ?p1 = "p\<lparr>linebuff := content strm, lineno := lineno p + 1\<rparr>"
    let ?s1 = "strm\<lparr>content := [], eofbit := True, failbit := (content strm = [])\<rparr>"
    have one: "skip_lines (p, strm) = skip_lines (?p1, ?s1)"
      using g gl bl by (subst skip_lines.simps) (auto simp: Let_def)
    have two: "skip_lines (?p1, ?s1) = Some (?p1, ?s1)"
      by (subst skip_lines.simps) simp
    show ?thesis unfolding one two lo by simp
  next
    case (Cons x rest)
    have lo: "lines_of (content strm) = ?line # lines_of rest"
      using Cons by (rule lines_of_split)
    have gl: "getline strm (linebuff p) = (strm\<lparr>content := rest\<rparr>, ?line)"
      unfolding getline_def Let_def Cons using less.prems(1) by simp
    have bl: "?line = [] \<or> starts_with ?line (comment_prefix p)"
      using less.prems(2) lo by (simp add: blank_or_comment_def starts_with_prefix)
    let ?p1 = "p\<lparr>linebuff := ?line, lineno := lineno p + 1\<rparr>"
    let ?s1 = "strm\<lparr>content := rest\<rparr>"
    have one: "skip_lines (p, strm) = skip_lines (?p1, ?s1)"
      using g gl bl by (subst skip_lines.simps) (auto simp: Let_def)
    have shorter: "length (content ?s1) < length (content strm)"
      using dropWhile_shorter[OF Cons] by simp
    have g1: "good ?s1" using less.prems(1) by (simp add: good_def)
    have b1: "\<forall>l\<in>set (lines_of (content ?s1)). blank_or_comment ?p1 l"
      using less.prems(2) lo by (simp add: blank_or_comment_def)
    have ne: "lines_of rest \<noteq> []" by (rule lines_of_nonempty)
    show ?thesis
      unfolding one less.hyps[OF shorter g1 b1] lo using ne by simp
  qed
qed

lemma skip_lines_stuck:
  assumes "skip_lines ps = Some r"
  shows "\<not> stuck ps"
proof -
  let ?P = "\<lambda>(ps :: swc_parser \<times> istream) (r :: swc_parser \<times> istream). \<not> stuck ps"
  show ?thesis
  proof (rule skip_lines.raw_induct[where P = ?P, OF _ assms])
    fix f and ps r :: "swc_parser \<times> istream"
    assume IH: "\<And>ps r. f ps = Some r \<Longrightarrow> \<not> stuck ps"
      and body: "(case ps of
         (p, strm) \<Rightarrow>
           if \<not> eofbit strm \<and> \<not> badbit strm
           then case getline strm (linebuff p) of
                (strm', lb) \<Rightarrow>
                  let p' = p\<lparr>linebuff := lb, lineno := lineno p + 1\<rparr>
                  in if lb \<noteq> [] \<and> \<not> starts_with lb (comment_prefix p') then Some (p', strm')
                     else f (p', strm')
           else Some (p, strm)) = Some r"
    obtain p strm where ps: "ps = (p, strm)" by (cases ps)
    show "\<not> stuck ps"
    proof
      assume st: "stuck ps"
      then have fl: "failbit strm" "\<not> eofbit strm" "\<not> badbit strm"
        and bl: "linebuff p = [] \<or> starts_with (linebuff p) (comment_prefix p)"
        using ps by (simp_all add: stuck_def)
      have gl: "getline strm (linebuff p) = (strm\<lparr>failbit := True\<rparr>, linebuff p)"
        using fl by (simp add: getline_def good_def)
      let ?p = "p\<lparr>linebuff := linebuff p, lineno := lineno p + 1\<rparr>"
      have cond: "\<not> (linebuff p \<noteq> [] \<and> \<not> starts_with (linebuff p) (comment_prefix p))"
        using bl by blast
      have "f (?p, strm\<lparr>failbit := True\<rparr>) = Some r"
        using body fl cond unfolding ps by (simp add: gl Let_def)
      from IH[OF this] have "\<not> stuck (?p, strm\<lparr>failbit := True\<rparr>)" .
      moreover have "stuck (?p, strm\<lparr>failbit := True\<rparr>)"
        using fl bl by (simp add: stuck_def)
      ultimately show False by simp
    qed
  qed
qed

lemma parse_record_failed_stream:
  "parse_record parse_line fresh_parser failed_stream cell = None"
proof -
  have "stuck (fresh_parser, failed_stream)"
    by (simp add: stuck_def fresh_parser_def failed_stream_def)
  then have "skip_lines (fresh_parser, failed_stream) = None"
    using skip_lines_stuck[of "(fresh_parser, failed_stream)"] by (cases "skip_lines (fresh_parser, failed_stream)") auto
  then show ?thesis by (simp add: parse_record_def)
qed

text \<open>
  Claim C10 (as stated): on every stream whose remaining content consists only of empty
  lines and comment lines, \<open>parse_record\<close> returns without an exception and leaves the
  record as it was. This fails on a stream that is not in good state. After the last data
  line of \<open>data_stream\<close> has been read, \<open>eofbit\<close> is set and nothing remains; a second
  call skips the loop, finds the data line still in the line buffer and converts it again,
  so the record it is given is overwritten. On \<open>failed_stream\<close>, where \<open>failbit\<close> is set
  and nothing remains either, \<open>getline\<close> reads nothing and the call does not return.
\<close>

theorem parse_record_stale_counterexample:
  "parse_record parse_example fresh_parser data_stream (ex_rec 5 4)
     = Some (Inr (stale_parser, stale_stream, ex_rec 0 (-1)))
   \<and> lines_of (content stale_stream) = [[]]
   \<and> list_all (blank_or_comment stale_parser) (lines_of (content stale_stream))
   \<and> parse_record parse_example stale_parser stale_stream (ex_rec 5 4)
       = Some (Inr (stale_parser, stale_stream, ex_rec 0 (-1)))
   \<and> ex_rec 5 4 \<noteq> ex_rec 0 (-1)
   \<and> \<not> skips_blank_lines parse_example stale_parser stale_stream (ex_rec 5 4)
   \<and> lines_of (content failed_stream) = [[]]
   \<and> parse_record parse_example fresh_parser failed_stream (ex_rec 5 4) = None"
proof -
  have stale: "parse_record parse_example fresh_parser data_stream (ex_rec 5 4)
       = Some (Inr (stale_parser, stale_stream, ex_rec 0 (-1)))
     \<and> lines_of (content stale_stream) = [[]]
     \<and> list_all (blank_or_comment stale_parser) (lines_of (content stale_stream))
     \<and> parse_record parse_example stale_parser stale_stream (ex_rec 5 4)
         = Some (Inr (stale_parser, stale_stream, ex_rec 0 (-1)))
     \<and> ex_rec 5 4 \<noteq> ex_rec 0 (-1)
     \<and> \<not> skips_blank_lines parse_example stale_parser stale_stream (ex_rec 5 4)
     \<and> lines_of (content failed_stream) = [[]]"
    by code_simp
  have "parse_record parse_example fresh_parser failed_stream (ex_rec 5 4) = None"
    by (rule parse_record_failed_stream)
  with stale show ?thesis by blast
qed

text \<open>
  Claim C10 (amended): on a stream in good state (\<open>eofbit\<close>, \<open>failbit\<close> and \<open>badbit\<close>
  clear on entry) whose remaining content consists only of empty lines and lines that
  start with the comment prefix, \<open>parse_record\<close> returns without an exception, leaves the
  record as it was, has consumed the whole content, and has incremented the line counter
  once for every line read (the last line being the piece, possibly empty, after the last
  newline).
\<close>

theorem parse_record_blank_lines:
  assumes "good strm"
    and "\<forall>l\<in>set (lines_of (content strm)). blank_or_comment p l"
  shows "parse_record parse_line p strm cell =
     Some (Inr (p\<lparr>linebuff := last (lines_of (content strm)),
                   lineno := lineno p + length (lines_of (content strm))\<rparr>,
                strm\<lparr>content := [], eofbit := True,
                     failbit := (last (lines_of (content strm)) = [])\<rparr>,
                cell))"
proof -
  have "last (lines_of (content strm)) \<in> set (lines_of (content strm))"
    using lines_of_nonempty by simp
  then have "blank_or_comment p (last (lines_of (content strm)))"
    using assms(2) by blast
  then have "last (lines_of (content strm)) = []
             \<or> starts_with (last (lines_of (content strm))) (comment_prefix p)"
    by (simp add: blank_or_comment_def starts_with_prefix)
  then show ?thesis
    unfolding parse_record_def skip_lines_blank[OF assms] by auto
qed

theorem parse_record_blank_lines_witness:
  "good blank_stream
   \<and> lines_of (content blank_stream) = [''# comment'', [], ''#x'', []]
   \<and> parse_record no_parse fresh_parser blank_stream (ex_rec 0 (-1)) =
       Some (Inr (\<lparr>linebuff = [], lineno = 4, comment_prefix = ''#''\<rparr>,
                  \<lparr>content = [], eofbit = True, failbit = True, badbit = False\<rparr>,
                  ex_rec 0 (-1)))"
proof -
  have g: "good blank_stream" by code_simp
  have l: "lines_of (content blank_stream) = [''# comment'', [], ''#x'', []]" by code_simp
  have b: "\<forall>l\<in>set (lines_of (content blank_stream)). blank_or_comment fresh_parser l"
    unfolding l by code_simp
  show ?thesis
    using g l parse_record_blank_lines[OF g b, of no_parse "ex_rec 0 (-1)"]
    by (simp add: fresh_parser_def blank_stream_def)
qed

section \<open>Properties of the morphology tree\<close>

text \<open>The expectations of the test \<open>cell_tree.from_parent_index\<close>.\<close>

lemma test_from_parent_index_1:
  "num_branches (make_cell_tree [0]) = 1 \<and> num_children (make_cell_tree [0]) 0 = Inr 0"
  by code_simp

lemma test_from_parent_index_2:
  "num_branches (make_cell_tree []) = 1 \<and> num_children (make_cell_tree []) 0 = Inr 0"
  by code_simp

lemma test_from_parent_index_3:
  "num_branches (make_cell_tree [0, 0, 1, 2, 0, 4]) = 3
   \<and> map (num_children (make_cell_tree [0, 0, 1, 2, 0, 4])) [0, 1, 2] = [Inr 2, Inr 0, Inr 0]"
  by code_simp

lemma test_from_parent_index_4:
  "num_branches (make_cell_tree [0, 0, 1, 2, 0, 4, 0, 6, 7, 8]) = 4
   \<and> map (num_children (make_cell_tree [0, 0, 1, 2, 0, 4, 0, 6, 7, 8])) [0, 1, 2, 3]
       = [Inr 3, Inr 0, Inr 0, Inr 0]"
  by code_simp

lemma test_from_parent_index_5:
  "num_branches (make_cell_tree [0, 0, 1, 2, 0, 4, 0, 6, 7, 8, 9, 8, 11, 12]) = 6
   \<and> map (num_children (make_cell_tree [0, 0, 1, 2, 0, 4, 0, 6, 7, 8, 9, 8, 11, 12]))
         [0, 1, 2, 3, 4, 5]
       = [Inr 3, Inr 0, Inr 0, Inr 2, Inr 0, Inr 0]"
  by code_simp

lemma test_from_parent_index_6:
  "num_branches (make_cell_tree [0, 0, 1, 1]) = 4
   \<and> map (num_children (make_cell_tree [0, 0, 1, 1])) [0, 1, 2, 3]
       = [Inr 1, Inr 2, Inr 0, Inr 0]"
  by code_simp

lemma test_from_parent_index_7:
  "num_branches (make_cell_tree [0, 0, 0, 1, 1]) = 5
   \<and> map (num_children (make_cell_tree [0, 0, 0, 1, 1])) [0, 1, 2, 3, 4]
       = [Inr 2, Inr 2, Inr 0, Inr 0, Inr 0]"
  by code_simp

lemma test_balance:
  "num_branches (make_cell_tree [0, 0, 0, 1, 1, 4, 4]) = 7
   \<and> map (num_children (make_cell_tree [0, 0, 0, 1, 1, 4, 4])) [0, 1, 2, 3, 4, 5, 6]
       = [Inr 2, Inr 2, Inr 0, Inr 0, Inr 2, Inr 0, Inr 0]"
  by code_simp

text \<open>
  Claim C8: a tree constructed from an empty or a single-entry parent-index array has
  exactly one branch, and \<open>num_children\<close> of branch 0 returns 0 (it is not an error).
\<close>

theorem trivial_parent_index_one_branch:
  assumes "length parent_index \<le> 1"
  shows "num_branches (make_cell_tree parent_index) = 1
         \<and> num_children (make_cell_tree parent_index) 0 = Inr 0"
proof -
  from assms consider "parent_index = []" | v where "parent_index = [v]"
    by (cases parent_index) auto
  then show ?thesis
  proof cases
    case 1
    then show ?thesis
      by (simp add: make_cell_tree_def num_branches_def num_children_def branch_start_def Let_def)
  next
    case 2
    then show ?thesis
      by (simp add: make_cell_tree_def num_branches_def num_children_def branch_start_def Let_def)
  qed
qed

theorem trivial_parent_index_one_branch_witness:
  "length [0::int] \<le> 1 \<and> num_branches (make_cell_tree [0]) = 1
   \<and> num_children (make_cell_tree [0]) 0 = Inr 0
   \<and> length ([]::int list) \<le> 1 \<and> num_branches (make_cell_tree []) = 1
   \<and> num_children (make_cell_tree []) 0 = Inr 0"
proof -
  have a: "length [0::int] \<le> 1" by simp
  have b: "length ([]::int list) \<le> 1" by simp
  show ?thesis
    using a b trivial_parent_index_one_branch[OF a] trivial_parent_index_one_branch[OF b]
    by simp
qed

section \<open>Properties of advance\<close>

lemma deliver_events_delivered:
  "deliver_events L bin tfinal ev_min_time g = Inr g1 \<Longrightarrow>
   deliver_frame g g1 \<and> (\<exists>new. delivered L bin tfinal ev_min_time g g1 new)"
proof (induction L bin tfinal ev_min_time g arbitrary: g1 rule: deliver_events.induct)
  case (1 L bin tfinal ev_min_time g)
  show ?case
  proof (cases "pop_if_before ev_time tfinal (events g)")
    case None
    then have g1: "g1 = g" using "1.prems" by (simp add: deliver_events.simps)
    have all: "\<forall>e\<in>set (events g). tfinal \<le> ev_time e"
      using pop_if_before_None[OF None] by blast
    then have keep: "filter_mset (\<lambda>e. tfinal \<le> ev_time e) (mset (events g)) = mset (events g)"
      by (metis (mono_tags, lifting) filter_mset_cong filter_mset_True set_mset_mset)
    have none: "filter_mset (\<lambda>e. ev_time e < tfinal) (mset (events g)) = {#}"
      using all by auto
    have "delivered L bin tfinal ev_min_time g g1 []"
      unfolding delivered_def g1 keep none by simp
    then show ?thesis unfolding g1 by (auto simp: deliver_frame_def)
  next
    case (Some a)
    obtain ev q where a: "a = (ev, q)" by (cases a)
    note pop = pop_if_before_Some[OF Some[unfolded a]]
    obtain h where h: "get_target_handle g (ev_target ev) = Inr h"
      using "1.prems" Some a by (cases "get_target_handle g (ev_target ev)")
        (simp_all add: deliver_events.simps)
    obtain t b where tb: "bin (binner g) (gid (ev_target ev)) (ev_time ev) ev_min_time = (t, b)"
      by (cases "bin (binner g) (gid (ev_target ev)) (ev_time ev) ev_min_time")
    let ?d = "\<lparr>dl_event = ev, dl_time = t, dl_handle = h\<rparr>"
    let ?g = "g\<lparr>events := q, binner := b,
                 lowered := add_event L t h (ev_weight ev) (lowered g),
                 added_events := added_events g @ [?d]\<rparr>"
    have rec: "deliver_events L bin tfinal ev_min_time ?g = Inr g1"
      using "1.prems" Some a h tb by (simp add: deliver_events.simps[of L bin tfinal ev_min_time g])
    from "1.IH"[OF Some a[symmetric] h tb[symmetric] rec]
    obtain new where fr: "deliver_frame ?g g1" and dl: "delivered L bin tfinal ev_min_time ?g g1 new"
      by blast
    have frame: "deliver_frame g g1" using fr by (simp add: deliver_frame_def)
    have ms: "mset (events g) = add_mset ev (mset q)" by (rule pop(3))
    have lt: "ev_time ev < tfinal" by (rule pop(1))
    have "delivered L bin tfinal ev_min_time g g1 (?d # new)"
      unfolding delivered_def
    proof (intro conjI)
      show "mset (events g1) = filter_mset (\<lambda>e. tfinal \<le> ev_time e) (mset (events g))"
        using dl lt unfolding delivered_def ms by simp
      show "added_events g1 = added_events g @ ?d # new"
        using dl unfolding delivered_def by simp
      show "mset (map dl_event (?d # new)) = filter_mset (\<lambda>e. ev_time e < tfinal) (mset (events g))"
        using dl lt unfolding delivered_def ms by simp
      show "\<forall>d\<in>set (?d # new). \<exists>b. dl_time d =
            fst (bin b (gid (ev_target (dl_event d))) (ev_time (dl_event d)) ev_min_time)"
      proof
        fix d assume "d \<in> set (?d # new)"
        then consider "d = ?d" | "d \<in> set new" by auto
        then show "\<exists>b. dl_time d =
            fst (bin b (gid (ev_target (dl_event d))) (ev_time (dl_event d)) ev_min_time)"
        proof cases
          case 1
          then show ?thesis using tb by (intro exI[of _ "binner g"]) simp
        next
          case 2
          then show ?thesis using dl unfolding delivered_def by blast
        qed
      qed
      show "lowered g1 = foldl (apply_delivery L) (lowered g) (?d # new)"
        using dl unfolding delivered_def by (simp add: apply_delivery_def)
    qed
    then show ?thesis using frame by blast
  qed
qed

lemma sampled_at_Nil: "sampled_at L gim l []"
  by (simp add: sampled_at_def)

lemma sampled_at_append:
  "sampled_at L gim l xs \<Longrightarrow> sampled_at L gim l ys \<Longrightarrow> sampled_at L gim l (xs @ ys)"
  by (auto simp: sampled_at_def)

lemma sampled_at_step:
  assumes "sampled_at L gim (step_integration L l) new"
  shows "sampled_at L gim l new"
  unfolding sampled_at_def
proof
  fix c assume "c \<in> set new"
  with assms obtain n i h where
    "gim (gid (call_probe_id c)) = Some i"
    "sr_time (call_record c) = cell_time L ((step_integration L ^^ n) (step_integration L l)) i"
    "sr_value (call_record c) = probe L ((step_integration L ^^ n) (step_integration L l)) h"
    "sample_time (call_event c) \<le> sr_time (call_record c)" "call_count c = 1"
    unfolding sampled_at_def by blast
  then show "\<exists>n i h. gim (gid (call_probe_id c)) = Some i
        \<and> sr_time (call_record c) = cell_time L ((step_integration L ^^ n) l) i
        \<and> sr_value (call_record c) = probe L ((step_integration L ^^ n) l) h
        \<and> sample_time (call_event c) \<le> sr_time (call_record c)
        \<and> call_count c = 1"
    by (intro exI[of _ "Suc n"] exI[of _ i] exI[of _ h]) (simp add: funpow_swap1)
qed

lemma sampled_refl: "sampled L g g"
  by (simp add: sampled_def sample_frame_def sampled_at_Nil)

lemma sampled_trans:
  assumes "sampled L g g1" and "sampled L g1 g2" and "lowered g1 = lowered g"
  shows "sampled L g g2"
proof -
  from assms(1) obtain new1 where n1: "sample_frame g g1"
    "sampler_calls g1 = sampler_calls g @ new1" "sampled_at L (gid_index_map g) (lowered g) new1"
    unfolding sampled_def by blast
  from assms(2) obtain new2 where n2: "sample_frame g1 g2"
    "sampler_calls g2 = sampler_calls g1 @ new2"
    "sampled_at L (gid_index_map g1) (lowered g1) new2"
    unfolding sampled_def by blast
  have gim: "gid_index_map g1 = gid_index_map g" using n1(1) by (simp add: sample_frame_def)
  have "sample_frame g g2" using n1(1) n2(1) by (simp add: sample_frame_def)
  moreover have "sampler_calls g2 = sampler_calls g @ (new1 @ new2)" using n1(2) n2(2) by simp
  moreover have "sampled_at L (gid_index_map g) (lowered g) (new1 @ new2)"
    using n1(3) n2(3) gim assms(3) by (simp add: sampled_at_append)
  ultimately show ?thesis unfolding sampled_def by blast
qed

lemma take_samples_sampled:
  "take_samples L samplers cell_max_time st = Inr st1 \<Longrightarrow>
   sampled L (fst st) (fst st1) \<and> lowered (fst st1) = lowered (fst st)"
proof (induction L samplers cell_max_time st arbitrary: st1 rule: take_samples.induct)
  case (1 L samplers cell_max_time g requeue)
  note unf = take_samples.simps[of L samplers cell_max_time g requeue]
  show ?case
  proof (cases "pop_if_before sample_time cell_max_time (sample_events g)")
    case None
    then have "st1 = (g, requeue)" using "1.prems" unfolding unf by simp
    then show ?thesis by (simp add: sampled_refl)
  next
    case (Some a)
    obtain m q where a: "a = (m, q)" by (cases a)
    let ?s = "samplers ! sampler_index m"
    have inr: "\<not> length samplers \<le> sampler_index m"
      using "1.prems" unfolding unf Some a by (auto split: if_splits)
    obtain f where f: "se_sampler ?s = Some f"
      using "1.prems" inr unfolding unf Some a
      by (cases "se_sampler ?s") (simp_all add: Let_def)
    obtain i where i: "gid_to_index g (gid (se_probe_id ?s)) = Inr i"
      using "1.prems" inr f unfolding unf Some a
      by (cases "gid_to_index g (gid (se_probe_id ?s))") (simp_all add: Let_def)
    have gim: "gid_index_map g (gid (se_probe_id ?s)) = Some i"
      using i by (auto simp: gid_to_index_def split: option.splits)
    let ?t = "cell_time L (lowered g) i"
    show ?thesis
    proof (cases "?t < sample_time m")
      case True
      let ?g = "g\<lparr>sample_events := q\<rparr>"
      have rec: "take_samples L samplers cell_max_time (?g, requeue @ [m]) = Inr st1"
        using "1.prems" inr f i True unfolding unf Some a by (simp add: Let_def)
      from "1.IH"(1)[OF Some a[symmetric] inr refl f i refl True rec]
      have "sampled L ?g (fst st1)" "lowered (fst st1) = lowered ?g" by simp_all
      moreover have "sampled L g ?g" by (simp add: sampled_def sample_frame_def sampled_at_Nil)
      ultimately show ?thesis using sampled_trans[of L g ?g "fst st1"] by simp
    next
      case False
      let ?c = "\<lparr>call_sampler = f, call_probe_id = se_probe_id ?s, call_tag = se_tag ?s,
                 call_count = 1,
                 call_record = \<lparr>sr_time = ?t, sr_value = probe L (lowered g) (se_handle ?s)\<rparr>,
                 call_event = m\<rparr>"
      let ?g = "g\<lparr>sample_events := q, sampler_calls := sampler_calls g @ [?c]\<rparr>"
      have rec: "take_samples L samplers cell_max_time (?g, requeue) = Inr st1"
        using "1.prems" inr f i False unfolding unf Some a by (simp add: Let_def)
      from "1.IH"(2)[OF Some a[symmetric] inr refl f i refl False refl refl rec]
      have "sampled L ?g (fst st1)" "lowered (fst st1) = lowered ?g" by simp_all
      moreover have "\<exists>n j h. gid_index_map g (gid (call_probe_id ?c)) = Some j
          \<and> sr_time (call_record ?c) = cell_time L ((step_integration L ^^ n) (lowered g)) j
          \<and> sr_value (call_record ?c) = probe L ((step_integration L ^^ n) (lowered g)) h
          \<and> sample_time (call_event ?c) \<le> sr_time (call_record ?c)
          \<and> call_count ?c = 1"
        using gim False by (intro exI[of _ 0] exI[of _ i] exI[of _ "se_handle ?s"]) simp
      then have "sampled_at L (gid_index_map g) (lowered g) [?c]"
        unfolding sampled_at_def by simp
      then have "sampled L g ?g" by (simp add: sampled_def sample_frame_def)
      ultimately show ?thesis using sampled_trans[of L g ?g "fst st1"] by simp
    qed
  qed
qed

lemma sampling_step_sampled:
  assumes "sampling_step L samplers tfinal g = Inr (g2, fs)"
  shows "sampled L g g2 \<and> lowered g2 = lowered g"
proof -
  from assms obtain g1 requeue where
    ts: "take_samples L samplers (max_time L (lowered g)) (g, []) = Inr (g1, requeue)"
    and g2: "g2 = g1\<lparr>sample_events := foldl push (sample_events g1) requeue\<rparr>"
    by (auto simp: sampling_step_def Let_def split: sum.splits)
  from take_samples_sampled[OF ts] have "sampled L g g1" "lowered g1 = lowered g" by simp_all
  moreover have "sampled L g1 g2" unfolding g2
    by (simp add: sampled_def sample_frame_def sampled_at_Nil)
  moreover have "lowered g2 = lowered g1" unfolding g2 by simp
  ultimately show ?thesis using sampled_trans[of L g g1 g2] by simp
qed

lemma sampled_step:
  assumes "sampled L g g1" and "lowered g1 = lowered g"
    and "sampled L (g1\<lparr>lowered := step_integration L (lowered g1)\<rparr>) g2"
  shows "sampled L g g2"
proof -
  from assms(3) obtain new2 where n2:
    "sample_frame (g1\<lparr>lowered := step_integration L (lowered g1)\<rparr>) g2"
    "sampler_calls g2 = sampler_calls g1 @ new2"
    "sampled_at L (gid_index_map g1) (step_integration L (lowered g1)) new2"
    unfolding sampled_def by auto
  have "sampled_at L (gid_index_map g1) (lowered g1) new2"
    by (rule sampled_at_step[OF n2(3)])
  moreover have "sample_frame g1 g2" using n2(1) by (simp add: sample_frame_def)
  ultimately have "sampled L g1 g2" using n2(2) unfolding sampled_def by blast
  then show ?thesis using sampled_trans[OF assms(1) _ assms(2)] by simp
qed

lemma integrate_sampled:
  fixes L :: "('l, 'th, 'ph) lowered_cell" and samplers :: "('ph, 'f) sampler_entry list"
    and st :: "('l, 'th, 'ph, 'sch, 'f, 'b) mc_cell_group \<times> real option"
  assumes "integrate L samplers tfinal st = Some (Inr g')"
  shows "sampled L (fst st) g' \<and> (\<exists>n. lowered g' = (step_integration L ^^ n) (lowered (fst st)))"
proof -
  let ?P = "\<lambda>(L :: ('l, 'th, 'ph) lowered_cell) (samplers :: ('ph, 'f) sampler_entry list)
              (tfinal :: real) (st :: ('l, 'th, 'ph, 'sch, 'f, 'b) mc_cell_group \<times> real option)
              (r :: engine_error + ('l, 'th, 'ph, 'sch, 'f, 'b) mc_cell_group).
     \<forall>g'. r = Inr g' \<longrightarrow>
       sampled L (fst st) g' \<and> (\<exists>n. lowered g' = (step_integration L ^^ n) (lowered (fst st)))"
  have "?P L samplers tfinal st (Inr g')"
  proof (rule integrate.raw_induct[where P = ?P, OF _ assms])
    fix integrate' and L :: "('l, 'th, 'ph) lowered_cell"
      and samplers :: "('ph, 'f) sampler_entry list" and tfinal :: real
      and st :: "('l, 'th, 'ph, 'sch, 'f, 'b) mc_cell_group \<times> real option"
      and r :: "engine_error + ('l, 'th, 'ph, 'sch, 'f, 'b) mc_cell_group"
    assume IH: "\<And>L samplers tfinal st r. integrate' L samplers tfinal st = Some r \<Longrightarrow>
                  ?P L samplers tfinal st r"
      and body: "(case st of
           (g, first_sample_time) \<Rightarrow>
             if integration_complete L (lowered g) then Some (Inr g)
             else case if first_sample_time \<noteq> None
                       then sampling_step L samplers tfinal g
                       else Inr (g, first_sample_time) of
                  Inl e \<Rightarrow> Some (Inl e)
                  | Inr (g1, first_sample_time1) \<Rightarrow>
                      integrate' L samplers tfinal
                       (g1\<lparr>lowered := step_integration L (lowered g1)\<rparr>,
                        first_sample_time1)) = Some r"
    obtain g fs where st: "st = (g, fs)" by (cases st)
    show "?P L samplers tfinal st r"
    proof (intro allI impI)
      fix g' assume r: "r = Inr g'"
      show "sampled L (fst st) g'
            \<and> (\<exists>n. lowered g' = (step_integration L ^^ n) (lowered (fst st)))"
      proof (cases "integration_complete L (lowered g)")
        case True
        then have "g' = g" using body r st by simp
        then show ?thesis using st by (auto simp: sampled_refl intro: exI[of _ 0])
      next
        case False
        let ?res = "if fs \<noteq> None then sampling_step L samplers tfinal g else Inr (g, fs)"
        obtain g1 fs1 where res: "?res = Inr (g1, fs1)"
          using body r st False by (cases ?res) (auto split: if_splits)
        have rec: "integrate' L samplers tfinal
                     (g1\<lparr>lowered := step_integration L (lowered g1)\<rparr>, fs1) = Some r"
          using body st False res by (auto split: if_splits)
        have s1: "sampled L g g1 \<and> lowered g1 = lowered g"
        proof (cases "fs \<noteq> None")
          case True
          then show ?thesis using res sampling_step_sampled[of L samplers tfinal g g1 fs1] by simp
        next
          case False
          then show ?thesis using res by (simp add: sampled_refl)
        qed
        from IH[OF rec] r
        have ih: "sampled L (g1\<lparr>lowered := step_integration L (lowered g1)\<rparr>) g'"
          and "\<exists>n. lowered g' = (step_integration L ^^ n) (step_integration L (lowered g1))"
          by simp_all
        then obtain n where
          n: "lowered g' = (step_integration L ^^ n) (step_integration L (lowered g))"
          using s1 by auto
        have "lowered g' = (step_integration L ^^ Suc n) (lowered g)"
          using n by (simp add: funpow_swap1)
        then have "\<exists>k. lowered g' = (step_integration L ^^ k) (lowered g)" by blast
        moreover have "sampled L g g'" using sampled_step[of L g g1 g'] s1 ih by simp
        ultimately show ?thesis unfolding st by simp
      qed
    qed
  qed
  then show ?thesis by simp
qed

lemma generate_spikes_Inr:
  "generate_spikes sources cs sp = Inr sp' \<Longrightarrow>
   sp' = sp @ map (spike_of sources) cs \<and> (\<forall>c\<in>set cs. crossing_index c < length sources)"
proof (induction cs arbitrary: sp)
  case Nil
  then show ?case by simp
next
  case (Cons c cs)
  have lt: "crossing_index c < length sources"
    using Cons.prems by (simp split: if_splits)
  then have "generate_spikes sources cs (sp @ [spike_of sources c]) = Inr sp'"
    using Cons.prems by (simp add: spike_of_def)
  from Cons.IH[OF this] show ?case using lt by simp
qed

lemma advance_phases:
  assumes "advance L bin sched_events tfinal dt g = Some (Inr g')"
  obtains g1 assocs samplers q g4 sp where
    "state_synchronized L (lowered g)"
    "deliver_events L bin tfinal (max_time L (lowered g)) g = Inr g1"
    "integrate L samplers tfinal
       (g1\<lparr>lowered := setup_integration L tfinal dt (lowered g1),
           sampler_map := assocs, sample_events := q\<rparr>,
        time_if_before sample_time tfinal q) = Some (Inr g4)"
    "generate_spikes (spike_sources g4) (get_spikes L (lowered g4)) (spikes g4) = Inr sp"
    "g' = g4\<lparr>spikes := sp, lowered := clear_spikes L (lowered g4)\<rparr>"
proof -
  have sync: "state_synchronized L (lowered g)"
    using assms by (auto simp: advance_def split: if_splits)
  obtain g1 where g1: "deliver_events L bin tfinal (max_time L (lowered g)) g = Inr g1"
    using assms sync
    by (cases "deliver_events L bin tfinal (max_time L (lowered g)) g")
      (auto simp: advance_def Let_def)
  let ?g2 = "g1\<lparr>lowered := setup_integration L tfinal dt (lowered g1)\<rparr>"
  let ?ss = "setup_samplers sched_events (probe_map ?g2) (min_time L (lowered g)) tfinal
               (sampler_map ?g2) ([], [], sample_events ?g2)"
  obtain assocs samplers q where ss: "?ss = Inr (assocs, samplers, q)"
    using assms sync g1 by (cases ?ss) (auto simp: advance_def Let_def)
  let ?g3 = "?g2\<lparr>sampler_map := assocs, sample_events := q\<rparr>"
  let ?int = "integrate L samplers tfinal (?g3, time_if_before sample_time tfinal q)"
  have rest: "(case ?int of
                 None \<Rightarrow> None
               | Some (Inl e) \<Rightarrow> Some (Inl e)
               | Some (Inr g4) \<Rightarrow>
                   (case generate_spikes (spike_sources g4) (get_spikes L (lowered g4)) (spikes g4) of
                      Inl e \<Rightarrow> Some (Inl e)
                    | Inr sp \<Rightarrow> Some (Inr (g4\<lparr>spikes := sp,
                                               lowered := clear_spikes L (lowered g4)\<rparr>))))
              = Some (Inr g')"
    using assms sync g1 ss by (simp add: advance_def Let_def)
  then obtain g4 where g4: "?int = Some (Inr g4)"
    by (cases ?int) (auto split: sum.splits)
  let ?gs = "generate_spikes (spike_sources g4) (get_spikes L (lowered g4)) (spikes g4)"
  obtain sp where sp: "?gs = Inr sp" and g': "g' = g4\<lparr>spikes := sp, lowered := clear_spikes L (lowered g4)\<rparr>"
    using rest g4 by (cases ?gs) auto
  have g4': "integrate L samplers tfinal
       (g1\<lparr>lowered := setup_integration L tfinal dt (lowered g1),
           sampler_map := assocs, sample_events := q\<rparr>,
        time_if_before sample_time tfinal q) = Some (Inr g4)"
    using g4 by simp
  show ?thesis by (rule that[OF sync g1 g4' sp g'])
qed

lemma integrate_returns:
  assumes "integration_complete L ((step_integration L ^^ n) (lowered g))"
  shows "integrate L samplers tfinal (g, fs) \<noteq> None"
  using assms
proof (induction n arbitrary: g fs)
  case 0
  then show ?case by (subst integrate.simps) simp
next
  case (Suc n)
  show ?case
  proof (cases "integration_complete L (lowered g)")
    case True
    then show ?thesis by (subst integrate.simps) simp
  next
    case False
    let ?res = "if fs \<noteq> None then sampling_step L samplers tfinal g else Inr (g, fs)"
    show ?thesis
    proof (cases ?res)
      case (Inl e)
      then show ?thesis using False by (subst integrate.simps) simp
    next
      case (Inr a)
      obtain g1 fs1 where a: "a = (g1, fs1)" by (cases a)
      have low: "lowered g1 = lowered g"
      proof (cases "fs \<noteq> None")
        case True
        then show ?thesis
          using Inr a sampling_step_sampled[of L samplers tfinal g g1 fs1] by simp
      next
        case False
        then show ?thesis using Inr a by simp
      qed
      let ?g = "g1\<lparr>lowered := step_integration L (lowered g1)\<rparr>"
      have "integration_complete L ((step_integration L ^^ n) (lowered ?g))"
        using Suc.prems low by (simp add: funpow_swap1)
      from Suc.IH[OF this] have "integrate L samplers tfinal (?g, fs1) \<noteq> None" .
      moreover have "integrate L samplers tfinal (g, fs) = integrate L samplers tfinal (?g, fs1)"
        using False Inr a by (subst integrate.simps) simp
      ultimately show ?thesis by simp
    qed
  qed
qed

lemma advance_returns:
  fixes L :: "('l, 'th, 'ph) lowered_cell" and g :: "('l, 'th, 'ph, 'sch, 'f, 'b) mc_cell_group"
  assumes "\<forall>l. \<exists>n. integration_complete L
             ((step_integration L ^^ n) (setup_integration L tfinal dt l))"
  shows "advance L bin sched_events tfinal dt g \<noteq> None"
proof -
  have "integrate L sm tfinal
          (gd\<lparr>lowered := setup_integration L tfinal dt (lowered gd),
              sampler_map := sa, sample_events := qu\<rparr>, ft) \<noteq> None"
    for gd :: "('l, 'th, 'ph, 'sch, 'f, 'b) mc_cell_group"
      and sa :: "('sch, 'f) sampler_association list"
      and sm :: "('ph, 'f) sampler_entry list" and qu ft
  proof -
    from assms obtain n where "integration_complete L
             ((step_integration L ^^ n) (setup_integration L tfinal dt (lowered gd)))"
      by blast
    then show ?thesis by (intro integrate_returns[of L n]) simp
  qed
  note ir = this
  show ?thesis
  proof (cases "state_synchronized L (lowered g)")
    case False
    then show ?thesis by (simp add: advance_def)
  next
    case sync: True
    show ?thesis
    proof (cases "deliver_events L bin tfinal (max_time L (lowered g)) g")
      case (Inl e)
      then show ?thesis using sync by (simp add: advance_def Let_def)
    next
      case (Inr g1)
      let ?g2 = "g1\<lparr>lowered := setup_integration L tfinal dt (lowered g1)\<rparr>"
      let ?ss = "setup_samplers sched_events (probe_map ?g2) (min_time L (lowered g)) tfinal
                   (sampler_map ?g2) ([], [], sample_events ?g2)"
      show ?thesis
      proof (cases ?ss)
        case (Inl e)
        then show ?thesis using sync Inr by (simp add: advance_def Let_def)
      next
        case ss: (Inr a)
        obtain assocs samplers q where a: "a = (assocs, samplers, q)" by (cases a)
        let ?int = "integrate L samplers tfinal
                      (?g2\<lparr>sampler_map := assocs, sample_events := q\<rparr>,
                       time_if_before sample_time tfinal q)"
        have "?int \<noteq> None"
          using ir[where gd = g1 and sa = assocs and sm = samplers and qu = q
                     and ft = "time_if_before sample_time tfinal q"] by simp
        then obtain r where r: "?int = Some r" by auto
        show ?thesis
          using sync Inr ss a r
          by (simp add: advance_def Let_def split: sum.splits)
      qed
    qed
  qed
qed

lemma returned_advance_result:
  "returned r \<Longrightarrow> r = Some (Inr (advance_result r d))"
  by (auto simp: returned_def advance_result_def split: option.splits sum.splits)

lemma toy_advance:
  "advance toy_lowered toy_bin toy_sched_events 3 1 toy_group = Some (Inr toy_after)"
proof -
  have "returned (advance toy_lowered toy_bin toy_sched_events 3 1 toy_group)" by code_simp
  from returned_advance_result[OF this] show ?thesis by (simp add: toy_after_def)
qed

lemma toy_advance2:
  "advance toy_lowered toy_bin toy_sched_events 4 1 toy_after = Some (Inr toy_after2)"
proof -
  have "returned (advance toy_lowered toy_bin toy_sched_events 4 1 toy_after)" by code_simp
  from returned_advance_result[OF this] show ?thesis by (simp add: toy_after2_def)
qed

lemma advance_sampled:
  assumes "advance L bin sched_events tfinal dt g = Some (Inr g')"
  shows "\<exists>g1 new. deliver_events L bin tfinal (max_time L (lowered g)) g = Inr g1
           \<and> sampler_calls g' = sampler_calls g @ new
           \<and> sampled_at L (gid_index_map g) (setup_integration L tfinal dt (lowered g1)) new"
proof -
  show ?thesis
  proof (rule advance_phases[OF assms(1)])
    fix g1 assocs samplers q g4 sp
    assume sync: "state_synchronized L (lowered g)"
      and g1: "deliver_events L bin tfinal (max_time L (lowered g)) g = Inr g1"
      and g4: "integrate L samplers tfinal
         (g1\<lparr>lowered := setup_integration L tfinal dt (lowered g1),
             sampler_map := assocs, sample_events := q\<rparr>,
          time_if_before sample_time tfinal q) = Some (Inr g4)"
      and sp: "generate_spikes (spike_sources g4) (get_spikes L (lowered g4)) (spikes g4) = Inr sp"
      and g': "g' = g4\<lparr>spikes := sp, lowered := clear_spikes L (lowered g4)\<rparr>"
  have df: "sampler_calls g1 = sampler_calls g" "gid_index_map g1 = gid_index_map g"
    using deliver_events_delivered[OF g1] by (simp_all add: deliver_frame_def)
  have "sampled L (g1\<lparr>lowered := setup_integration L tfinal dt (lowered g1),
           sampler_map := assocs, sample_events := q\<rparr>) g4"
    using integrate_sampled[OF g4] by simp
  then obtain new where new: "sampler_calls g4 = sampler_calls g1 @ new"
    "sampled_at L (gid_index_map g1) (setup_integration L tfinal dt (lowered g1)) new"
    unfolding sampled_def by auto
  have "sampler_calls g' = sampler_calls g @ new" using new(1) g' df by simp
  moreover have "sampled_at L (gid_index_map g) (setup_integration L tfinal dt (lowered g1)) new"
    using new(2) df by simp
  ultimately show ?thesis using g1 by (intro exI[of _ g1] exI[of _ new]) simp
qed
qed

subsection \<open>Pending events\<close>

text \<open>
  Claim C2: when a call \<open>advance(tfinal, dt)\<close> returns, the pending event queue holds
  exactly the events that were pending with a delivery time at or after \<open>tfinal\<close>, and
  the events delivered to the integrator by this call (one call of \<open>add_event\<close> each) are
  exactly the events that were pending with a delivery time strictly before \<open>tfinal\<close>.
  The lowered cell of the returned group is the state reached from the one it had on
  entry by exactly these calls of \<open>add_event\<close>, followed by \<open>setup_integration\<close>, the
  integration steps and \<open>clear_spikes\<close>.
\<close>

theorem advance_events:
  assumes "advance L bin sched_events tfinal dt g = Some (Inr g')"
  shows "mset (events g') = filter_mset (\<lambda>e. tfinal \<le> ev_time e) (mset (events g))
         \<and> (\<exists>g1 new n. deliver_events L bin tfinal (max_time L (lowered g)) g = Inr g1
               \<and> lowered g1 = foldl (apply_delivery L) (lowered g) new
               \<and> added_events g' = added_events g @ new
               \<and> mset (map dl_event new)
                   = filter_mset (\<lambda>e. ev_time e < tfinal) (mset (events g))
               \<and> lowered g' = clear_spikes L ((step_integration L ^^ n)
                    (setup_integration L tfinal dt (foldl (apply_delivery L) (lowered g) new))))"
proof -
  show ?thesis
  proof (rule advance_phases[OF assms(1)])
    fix g1 assocs samplers q g4 sp
    assume sync: "state_synchronized L (lowered g)"
      and g1: "deliver_events L bin tfinal (max_time L (lowered g)) g = Inr g1"
      and g4: "integrate L samplers tfinal
         (g1\<lparr>lowered := setup_integration L tfinal dt (lowered g1),
             sampler_map := assocs, sample_events := q\<rparr>,
          time_if_before sample_time tfinal q) = Some (Inr g4)"
      and sp: "generate_spikes (spike_sources g4) (get_spikes L (lowered g4)) (spikes g4) = Inr sp"
      and g': "g' = g4\<lparr>spikes := sp, lowered := clear_spikes L (lowered g4)\<rparr>"
  from deliver_events_delivered[OF g1] obtain new where
    new: "delivered L bin tfinal (max_time L (lowered g)) g g1 new" by blast
  have fr: "events g' = events g1" "added_events g' = added_events g1"
    using integrate_sampled[OF g4] g' by (simp_all add: sampled_def sample_frame_def)
  have a: "mset (events g1) = filter_mset (\<lambda>e. tfinal \<le> ev_time e) (mset (events g))"
    and b: "added_events g1 = added_events g @ new"
    and c: "mset (map dl_event new) = filter_mset (\<lambda>e. ev_time e < tfinal) (mset (events g))"
    and d: "lowered g1 = foldl (apply_delivery L) (lowered g) new"
    using new by (simp_all add: delivered_def)
  from integrate_sampled[OF g4] obtain n where
    "lowered g4 = (step_integration L ^^ n) (setup_integration L tfinal dt (lowered g1))"
    by auto
  then have low: "lowered g' = clear_spikes L ((step_integration L ^^ n)
      (setup_integration L tfinal dt (foldl (apply_delivery L) (lowered g) new)))"
    using g' d by simp
  have "deliver_events L bin tfinal (max_time L (lowered g)) g = Inr g1
        \<and> lowered g1 = foldl (apply_delivery L) (lowered g) new
        \<and> added_events g' = added_events g @ new
        \<and> mset (map dl_event new) = filter_mset (\<lambda>e. ev_time e < tfinal) (mset (events g))
        \<and> lowered g' = clear_spikes L ((step_integration L ^^ n)
             (setup_integration L tfinal dt (foldl (apply_delivery L) (lowered g) new)))"
    using g1 b c d fr(2) low by simp
  then have "\<exists>g1 new n. deliver_events L bin tfinal (max_time L (lowered g)) g = Inr g1
        \<and> lowered g1 = foldl (apply_delivery L) (lowered g) new
        \<and> added_events g' = added_events g @ new
        \<and> mset (map dl_event new) = filter_mset (\<lambda>e. ev_time e < tfinal) (mset (events g))
        \<and> lowered g' = clear_spikes L ((step_integration L ^^ n)
             (setup_integration L tfinal dt (foldl (apply_delivery L) (lowered g) new)))"
    by (intro exI[of _ g1] exI[of _ new] exI[of _ n])
  then show ?thesis using a fr(1) by simp
qed
qed

theorem advance_events_witness:
  "advance toy_lowered toy_bin toy_sched_events 3 1 toy_group = Some (Inr toy_after)
   \<and> map ev_time (events toy_group) = [3, 2, 1 / 2]
   \<and> map ev_time (events toy_after) = [3]
   \<and> map (ev_time \<circ> dl_event) (added_events toy_after) = [1 / 2, 2]
   \<and> advance toy_lowered toy_bin toy_sched_events 4 1 toy_after = Some (Inr toy_after2)
   \<and> events toy_after2 = []
   \<and> map (ev_time \<circ> dl_event) (added_events toy_after2) = [1 / 2, 2, 3]
   \<and> toy_inbox (lowered toy_group) = []
   \<and> toy_inbox (lowered toy_after) = [(1, 40, 3), (2, 41, 2)]
   \<and> toy_inbox (lowered toy_after2) = [(1, 40, 3), (2, 41, 2), (3, 40, 1)]"
proof -
  have i0: "toy_inbox (lowered toy_group) = []" by code_simp
  have i1: "toy_inbox (lowered toy_after) = [(1, 40, 3), (2, 41, 2)]" by code_simp
  have i2: "toy_inbox (lowered toy_after2) = [(1, 40, 3), (2, 41, 2), (3, 40, 1)]" by code_simp
  have a: "map ev_time (events toy_group) = [3, 2, 1 / 2]" by code_simp
  have b: "map ev_time (events toy_after) = [3]" by code_simp
  have c: "map (ev_time \<circ> dl_event) (added_events toy_after) = [1 / 2, 2]" by code_simp
  have d: "events toy_after2 = []" by code_simp
  have e: "map (ev_time \<circ> dl_event) (added_events toy_after2) = [1 / 2, 2, 3]" by code_simp
  show ?thesis
    using toy_advance toy_advance2 a b c d e i0 i1 i2 advance_events[OF toy_advance] by simp
qed

subsection \<open>Bin times\<close>



subsection \<open>Spikes\<close>

text \<open>
  Claim C4: when \<open>advance\<close> returns, the spike list is the former list followed by one
  spike for every threshold crossing that the integrator reports at the end of the
  integration, in their order, each with the global identifier \<open>spike_sources_[c.index]\<close>
  of its source; the lowered cell is left in the state that \<open>clear_spikes\<close> returns, so
  that, for an integrator whose \<open>clear_spikes\<close> empties its buffer, the buffer is empty
  after the call and a later harvest only sees crossings recorded after it.
\<close>

theorem advance_spikes:
  assumes "advance L bin sched_events tfinal dt g = Some (Inr g')"
  shows "\<exists>g1 n l. deliver_events L bin tfinal (max_time L (lowered g)) g = Inr g1
           \<and> l = (step_integration L ^^ n) (setup_integration L tfinal dt (lowered g1))
           \<and> spikes g' = spikes g @ map (spike_of (spike_sources g)) (get_spikes L l)
           \<and> (\<forall>c\<in>set (get_spikes L l). crossing_index c < length (spike_sources g))
           \<and> lowered g' = clear_spikes L l
           \<and> ((\<forall>l. get_spikes L (clear_spikes L l) = []) \<longrightarrow> get_spikes L (lowered g') = [])"
proof -
  show ?thesis
  proof (rule advance_phases[OF assms(1)])
    fix g1 assocs samplers q g4 sp
    assume sync: "state_synchronized L (lowered g)"
      and g1: "deliver_events L bin tfinal (max_time L (lowered g)) g = Inr g1"
      and g4: "integrate L samplers tfinal
         (g1\<lparr>lowered := setup_integration L tfinal dt (lowered g1),
             sampler_map := assocs, sample_events := q\<rparr>,
          time_if_before sample_time tfinal q) = Some (Inr g4)"
      and sp: "generate_spikes (spike_sources g4) (get_spikes L (lowered g4)) (spikes g4) = Inr sp"
      and g': "g' = g4\<lparr>spikes := sp, lowered := clear_spikes L (lowered g4)\<rparr>"
  have df: "spikes g1 = spikes g" "spike_sources g1 = spike_sources g"
    using deliver_events_delivered[OF g1] by (simp_all add: deliver_frame_def)
  note intg = integrate_sampled[OF g4]
  have fr: "spikes g4 = spikes g1" "spike_sources g4 = spike_sources g1"
    using intg by (simp_all add: sampled_def sample_frame_def)
  from intg obtain n where
    n: "lowered g4 = (step_integration L ^^ n) (setup_integration L tfinal dt (lowered g1))"
    by auto
  note gs = generate_spikes_Inr[OF sp]
  have a: "spikes g' = spikes g @ map (spike_of (spike_sources g)) (get_spikes L (lowered g4))"
    using gs g' fr df by simp
  have b: "\<forall>c\<in>set (get_spikes L (lowered g4)). crossing_index c < length (spike_sources g)"
    using gs fr df by simp
  have c: "lowered g' = clear_spikes L (lowered g4)" using g' by simp
  have d: "(\<forall>l. get_spikes L (clear_spikes L l) = []) \<longrightarrow> get_spikes L (lowered g') = []"
    using c by simp
  show ?thesis
    using g1 n a b c d
    by (intro exI[of _ g1] exI[of _ n] exI[of _ "lowered g4"]) simp
qed
qed

theorem advance_spikes_witness:
  "advance toy_lowered toy_bin toy_sched_events 3 1 toy_group = Some (Inr toy_after)
   \<and> spikes toy_group = []
   \<and> map spike_time (spikes toy_after) = [2, 3]
   \<and> map spike_source (spikes toy_after) = [\<lparr>gid = 7, index = 0\<rparr>, \<lparr>gid = 7, index = 0\<rparr>]
   \<and> get_spikes toy_lowered (lowered toy_after) = []
   \<and> advance toy_lowered toy_bin toy_sched_events 4 1 toy_after = Some (Inr toy_after2)
   \<and> map spike_time (spikes toy_after2) = [2, 3, 4]"
proof -
  have a: "spikes toy_group = []" by code_simp
  have b: "map spike_time (spikes toy_after) = [2, 3]" by code_simp
  have c: "map spike_source (spikes toy_after) = [\<lparr>gid = 7, index = 0\<rparr>, \<lparr>gid = 7, index = 0\<rparr>]"
    by code_simp
  have d: "get_spikes toy_lowered (lowered toy_after) = []" by code_simp
  have e: "map spike_time (spikes toy_after2) = [2, 3, 4]" by code_simp
  show ?thesis
    using toy_advance toy_advance2 a b c d e advance_spikes[OF toy_advance] by simp
qed

subsection \<open>Sample records\<close>

text \<open>
  Claim C9: every record that \<open>advance\<close> passes to a sampler callback carries the time
  that the cell of the probe has reached in the state of the integrator in which the
  probe is read (some number of integration steps after \<open>setup_integration\<close>), and this
  time is not before the time of the sample event; it is not the scheduled time, and it
  can be strictly later: in the example the sample scheduled at 3/2 is delivered with the
  time 2.
\<close>

theorem advance_sample_times:
  "(advance L bin sched_events tfinal dt g = Some (Inr g') \<longrightarrow>
      (\<exists>g1 new. deliver_events L bin tfinal (max_time L (lowered g)) g = Inr g1
           \<and> sampler_calls g' = sampler_calls g @ new
           \<and> sampled_at L (gid_index_map g) (setup_integration L tfinal dt (lowered g1)) new))
   \<and> advance toy_lowered toy_bin toy_sched_events 3 1 toy_group = Some (Inr toy_after)
   \<and> (\<exists>c\<in>set (sampler_calls toy_after). sample_time (call_event c) < sr_time (call_record c))"
proof (intro conjI impI)
  assume "advance L bin sched_events tfinal dt g = Some (Inr g')"
  then show "\<exists>g1 new. deliver_events L bin tfinal (max_time L (lowered g)) g = Inr g1
           \<and> sampler_calls g' = sampler_calls g @ new
           \<and> sampled_at L (gid_index_map g) (setup_integration L tfinal dt (lowered g1)) new"
    by (rule advance_sampled)
next
  show "advance toy_lowered toy_bin toy_sched_events 3 1 toy_group = Some (Inr toy_after)"
    by (rule toy_advance)
next
  have "map (\<lambda>c. sample_time (call_event c) < sr_time (call_record c)) (sampler_calls toy_after)
          = [True]"
    by code_simp
  then show "\<exists>c\<in>set (sampler_calls toy_after).
               sample_time (call_event c) < sr_time (call_record c)"
    by (cases "sampler_calls toy_after") auto
qed

theorem advance_sample_times_witness:
  "advance toy_lowered toy_bin toy_sched_events 3 1 toy_group = Some (Inr toy_after)
   \<and> sampler_calls toy_group = []
   \<and> map (sample_time \<circ> call_event) (sampler_calls toy_after) = [3 / 2]
   \<and> map (sr_time \<circ> call_record) (sampler_calls toy_after) = [2]"
proof -
  have a: "sampler_calls toy_group = []" by code_simp
  have b: "map (sample_time \<circ> call_event) (sampler_calls toy_after) = [3 / 2]" by code_simp
  have c: "map (sr_time \<circ> call_record) (sampler_calls toy_after) = [2]" by code_simp
  show ?thesis
    using toy_advance a b c advance_sample_times[of toy_lowered toy_bin toy_sched_events 3 1 toy_group toy_after] by simp
qed

end
